theory Spec2Isabelle
  imports Main "HOL-Library.Word"
begin

unbundle bit_operations_syntax

section \<open>Machine types and constants of UKHASnet-decoder.c\<close>

type_synonym u8 = "8 word"
type_synonym u16 = "16 word"
type_synonym c_int = "32 word"

definition CRC_START :: u16 where
  "CRC_START = 0x1D0F"

definition MAX_PACKET_SIZE :: int where
  "MAX_PACKET_SIZE = 255"

definition SYNC_WORD :: c_int where
  "SYNC_WORD = 0x2DAA"


section \<open>The CRC16 engine\<close>

text \<open>
  One round of the loop body of \<open>crc_xmodem_update\<close>. The operands of \<open>&\<close>, \<open><<\<close> and
  \<open>^\<close> are promoted to \<open>int\<close> (32 bits) by C, and the assignment to the \<open>uint16_t\<close>
  variable truncates the result: the promotion is \<open>ucast\<close> to a 32-bit word and the
  truncation is \<open>ucast\<close> back.
\<close>

definition crc_round :: "u16 \<Rightarrow> u16" where
  "crc_round crc =
     (if (ucast crc :: c_int) AND 0x8000 \<noteq> 0
      then ucast (push_bit 1 (ucast crc :: c_int) XOR 0x1021)
      else ucast (push_bit 1 (ucast crc :: c_int)))"

text \<open>The loop \<open>for (int i=0; i<8; i++)\<close>, with the counter as an argument.\<close>

function crc_loop :: "int \<Rightarrow> u16 \<Rightarrow> u16" where
  "crc_loop i crc = (if i < 8 then crc_loop (i + 1) (crc_round crc) else crc)"
  by pat_completeness auto
termination
  by (relation "measure (\<lambda>(i, crc). nat (8 - i))") auto

declare crc_loop.simps [simp del]

definition crc_xmodem_update :: "u16 \<Rightarrow> u8 \<Rightarrow> u16" where
  "crc_xmodem_update crc data =
     crc_loop 0 (ucast ((ucast crc :: c_int) XOR push_bit 8 (ucast data :: c_int)))"

subsection \<open>The reference definition of the specification\<close>

text \<open>
  The update as the specification words it, on natural numbers, with the reduction modulo
  \<open>2 ^ 16\<close> written out after every operation.
\<close>

definition ref_round :: "nat \<Rightarrow> nat" where
  "ref_round crc =
     (if bit crc 15 then (push_bit 1 crc mod 2 ^ 16 XOR 0x1021) mod 2 ^ 16
      else push_bit 1 crc mod 2 ^ 16)"

definition ref_crc_update :: "nat \<Rightarrow> nat \<Rightarrow> nat" where
  "ref_crc_update crc b = (ref_round ^^ 8) ((crc XOR push_bit 8 b) mod 2 ^ 16)"

section \<open>Decoder state\<close>

text \<open>
  What the program writes to standard output, one constructor per \<open>printf\<close> format. The
  time stamp that \<open>printTime\<close> puts in front of a line comes from the system clock and is
  left out.
\<close>

datatype message =
    Sync_msg u16
  | Parsing_msg int
  | Length_skip_msg int int
  | Crc_mismatch_msg u16 u16
  | Packet_msg "u8 list"

datatype error = Buffer_overrun

text \<open>
  The global variables of the decoder. \<open>len\<close>, \<open>offset\<close> and \<open>skipBit\<close> are C \<open>int\<close>s
  that stay far from the limits of the type and are modelled as integers. \<open>buffer\<close> is
  the array \<open>uint8_t buffer[MAX_PACKET_SIZE]\<close>; an access outside the list is the error
  \<open>Buffer_overrun\<close>.
\<close>

record decoder =
  syncBuffer :: u16
  verbose :: bool
  byte :: u8
  buffer :: "u8 list"
  packetSync :: bool
  len :: int
  offset :: int
  computedCrc :: u16
  readCrc :: u16
  skipBit :: int
  stdout :: "message list"

text \<open>The static initialisers; \<open>verbose\<close> is set by the option \<open>-v\<close> before any sample.\<close>

definition initial :: "bool \<Rightarrow> decoder" where
  "initial v =
     \<lparr>syncBuffer = 0, verbose = v, byte = 0,
      buffer = replicate (nat MAX_PACKET_SIZE) 0, packetSync = False,
      len = - 1, offset = 0, computedCrc = 0x1D0F, readCrc = 0, skipBit = 8,
      stdout = []\<rparr>"

section \<open>The packet assembler\<close>

text \<open>The loop \<open>for (int i=0; i<len; ++i) putchar(buffer[i])\<close>, from index \<open>i\<close> on.\<close>

function putchar_loop :: "u8 list \<Rightarrow> int \<Rightarrow> int \<Rightarrow> error + u8 list" where
  "putchar_loop buf n i =
     (if i < n then
        (if 0 \<le> i \<and> i < int (length buf) then
           (case putchar_loop buf n (i + 1) of
              Inl e \<Rightarrow> Inl e
            | Inr cs \<Rightarrow> Inr (buf ! nat i # cs))
         else Inl Buffer_overrun)
      else Inr [])"
  by pat_completeness auto
termination
  by (relation "measure (\<lambda>(buf, n, i). nat (n - i))") auto

declare putchar_loop.simps [simp del]

text \<open>
  \<open>processByte\<close> returns the continuation flag and the updated globals. The branches
  and their order are those of the source.
\<close>

definition processByte :: "decoder \<Rightarrow> u8 \<Rightarrow> error + (bool \<times> decoder)" where
  "processByte st b =
     (if len st = - 1 then
        let st1 = st\<lparr>len := uint b\<rparr>;
            st2 = st1\<lparr>computedCrc := crc_xmodem_update (computedCrc st1) b\<rparr>
        in if len st2 \<le> MAX_PACKET_SIZE - 1 then
             Inr (True,
               if verbose st2
               then st2\<lparr>stdout := stdout st2 @ [Parsing_msg (len st2)]\<rparr>
               else st2)
           else
             Inr (False,
               if verbose st2
               then st2\<lparr>stdout := stdout st2 @
                      [Length_skip_msg (len st2) (MAX_PACKET_SIZE - 1)]\<rparr>
               else st2)
      else if offset st < len st then
        if 0 \<le> offset st \<and> offset st < int (length (buffer st)) then
          Inr (True,
            st\<lparr>buffer := (buffer st)[nat (offset st) := b],
               offset := offset st + 1,
               computedCrc := crc_xmodem_update (computedCrc st) b\<rparr>)
        else Inl Buffer_overrun
      else if offset st = len st then
        Inr (True,
          st\<lparr>readCrc := ucast ((ucast (readCrc st) :: c_int) OR
                              push_bit 8 (ucast b :: c_int)),
             offset := offset st + 1\<rparr>)
      else if offset st = len st + 1 then
        let st1 = st\<lparr>readCrc := ucast ((ucast (readCrc st) :: c_int) OR
                                        (ucast b :: c_int))\<rparr>;
            st2 = st1\<lparr>readCrc := ucast ((0xffff :: c_int) - ucast (readCrc st1))\<rparr>
        in if computedCrc st2 = readCrc st2 then
             (case putchar_loop (buffer st2) (len st2) 0 of
                Inl e \<Rightarrow> Inl e
              | Inr cs \<Rightarrow> Inr (False, st2\<lparr>stdout := stdout st2 @ [Packet_msg cs]\<rparr>))
           else if verbose st2 then
             Inr (False,
               st2\<lparr>stdout := stdout st2 @
                      [Crc_mismatch_msg (readCrc st2) (computedCrc st2)]\<rparr>)
           else Inr (False, st2)
      else Inr (False, st))"

section \<open>Frame synchronisation\<close>

definition processBit :: "decoder \<Rightarrow> bool \<Rightarrow> error + decoder" where
  "processBit st bit_in =
     (if packetSync st then
        let st1 = st\<lparr>byte := ucast (push_bit 1 (ucast (byte st) :: c_int) OR
                                     of_bool bit_in)\<rparr>;
            st2 = st1\<lparr>skipBit := skipBit st1 - 1\<rparr>
        in if skipBit st2 < 1 then
             (case processByte (st2\<lparr>skipBit := 8\<rparr>) (byte st2) of
                Inl e \<Rightarrow> Inl e
              | Inr (flag, st3) \<Rightarrow> Inr (st3\<lparr>packetSync := flag\<rparr>))
           else Inr st2
      else
        let st1 = st\<lparr>syncBuffer := ucast (push_bit 1 (ucast (syncBuffer st) :: c_int) OR
                                           of_bool bit_in)\<rparr>;
            st2 = st1\<lparr>packetSync :=
                    ((ucast (syncBuffer st1) :: c_int) = SYNC_WORD \<or>
                     (ucast (syncBuffer st1) :: c_int) = 0xffff - SYNC_WORD)\<rparr>
        in if packetSync st2 then
             Inr ((if verbose st2
                   then st2\<lparr>stdout := stdout st2 @ [Sync_msg (syncBuffer st2)]\<rparr>
                   else st2)
                  \<lparr>skipBit := 8, len := - 1, offset := 0,
                   computedCrc := 0x1D0F, readCrc := 0\<rparr>)
           else Inr st2)"

text \<open>The decoder on a bit stream: \<open>processBit\<close> on each bit in turn.\<close>

fun processBits :: "decoder \<Rightarrow> bool list \<Rightarrow> error + decoder" where
  "processBits st [] = Inr st"
| "processBits st (b # bs) =
     (case processBit st b of Inl e \<Rightarrow> Inl e | Inr st' \<Rightarrow> processBits st' bs)"

text \<open>The payloads printed so far, in order.\<close>

fun packets :: "message list \<Rightarrow> u8 list list" where
  "packets [] = []"
| "packets (Packet_msg cs # ms) = cs # packets ms"
| "packets (m # ms) = packets ms"

section \<open>The bit slicer in \<open>main\<close>\<close>



text \<open>C's division of \<open>int\<close>s, which truncates towards zero.\<close>

definition c_div :: "int \<Rightarrow> int \<Rightarrow> int" where
  "c_div a b = (if (a < 0) = (b < 0) then \<bar>a\<bar> div \<bar>b\<bar> else - (\<bar>a\<bar> div \<bar>b\<bar>))"

record slicer =
  threshold :: "16 word"
  skipSamples :: int


text \<open>
  The value of the \<open>int\<close> expression assigned to \<open>threshold\<close>, before the conversion to
  \<open>int16_t\<close>.
\<close>

definition threshold_expr :: "int \<Rightarrow> 16 word \<Rightarrow> 16 word \<Rightarrow> int" where
  "threshold_expr downSamples t sample =
     c_div (sint sample + (8 * downSamples - 1) * sint t) (8 * downSamples)"

text \<open>
  The body of the \<open>while\<close> loop for one sample, up to the call of \<open>processBit\<close>: the new
  slicer state and the bit handed to \<open>processBit\<close>, if any.
\<close>

definition process_sample :: "int \<Rightarrow> slicer \<Rightarrow> 16 word \<Rightarrow> slicer \<times> bool option" where
  "process_sample downSamples sl sample =
     (let sl1 = sl\<lparr>threshold := word_of_int (threshold_expr downSamples (threshold sl) sample)\<rparr>;
          sl2 = sl1\<lparr>skipSamples := skipSamples sl1 - 1\<rparr>
      in if skipSamples sl2 < 1
         then (sl2\<lparr>skipSamples := downSamples\<rparr>, Some (sint (threshold sl2) < sint sample))
         else (sl2, None))"


text \<open>The loop body on one sample: the slicer, then \<open>processBit\<close> on the bit, if one is decided.\<close>

definition loop_body ::
  "int \<Rightarrow> slicer \<Rightarrow> decoder \<Rightarrow> 16 word \<Rightarrow> error + (slicer \<times> decoder)" where
  "loop_body downSamples sl st sample =
     (case process_sample downSamples sl sample of
        (sl', None) \<Rightarrow> Inr (sl', st)
      | (sl', Some b) \<Rightarrow>
          (case processBit st b of
             Inl e \<Rightarrow> Inl e
           | Inr st' \<Rightarrow> Inr (sl', st')))"

text \<open>
  The loop \<open>while(!feof(stdin))\<close> over the bytes of the input, low byte of a sample first.
  \<open>fgetc\<close> returns \<open>EOF\<close>, which is \<open>-1\<close>, at the end of the input, and the end-of-file
  indicator is set by that failed read only. So after the last complete sample the body
  runs once more, on the sample \<open>-1\<close> made of two \<open>EOF\<close>s, and an input that ends in the
  middle of a sample gives a last sample with the high byte \<open>0xFF\<close>. The two calls of
  \<open>fgetc\<close> in the expression are taken in the order written.
\<close>

fun main_loop ::
  "int \<Rightarrow> slicer \<Rightarrow> decoder \<Rightarrow> u8 list \<Rightarrow> error + (slicer \<times> decoder)" where
  "main_loop downSamples sl st [] = loop_body downSamples sl st (- 1)"
| "main_loop downSamples sl st [lo] = loop_body downSamples sl st (ucast lo OR 0xFF00)"
| "main_loop downSamples sl st (lo # hi # rest) =
     (case loop_body downSamples sl st (ucast lo OR push_bit 8 (ucast hi)) of
        Inl e \<Rightarrow> Inl e
      | Inr (sl', st') \<Rightarrow> main_loop downSamples sl' st' rest)"

section \<open>Bit streams of encoded packets\<close>

text \<open>
  The repository has no transmitter. The bit streams that the claims feed to the decoder
  are built here as the specification describes a frame: bytes go out most significant bit
  first; a frame is the sync word, the length byte, the payload and the two bytes of
  \<open>0xFFFF\<close> minus the CRC of the length byte and the payload, high byte first.
\<close>

definition byte_bits :: "u8 \<Rightarrow> bool list" where
  "byte_bits b = map (bit b) (rev [0..<8])"

definition word_bits :: "u16 \<Rightarrow> bool list" where
  "word_bits w = byte_bits (ucast (drop_bit 8 w)) @ byte_bits (ucast w)"

definition bytes_bits :: "u8 list \<Rightarrow> bool list" where
  "bytes_bits bs = concat (map byte_bits bs)"

definition crc_of :: "u16 \<Rightarrow> u8 list \<Rightarrow> u16" where
  "crc_of seed bs = foldl crc_xmodem_update seed bs"

definition packet_crc :: "u8 list \<Rightarrow> u16" where
  "packet_crc P = crc_of CRC_START (word_of_nat (length P) # P)"

definition frame_bits :: "u16 \<Rightarrow> u8 \<Rightarrow> u8 list \<Rightarrow> u16 \<Rightarrow> bool list" where
  "frame_bits sync l P c = word_bits sync @ byte_bits l @ bytes_bits P @ word_bits c"

definition encode_packet :: "u8 list \<Rightarrow> bool list" where
  "encode_packet P = frame_bits 0x2DAA (word_of_nat (length P)) P (0xFFFF - packet_crc P)"

text \<open>The same frame with bit \<open>j\<close> of payload byte \<open>i\<close> flipped and the CRC bytes kept.\<close>

definition corrupt_packet :: "u8 list \<Rightarrow> nat \<Rightarrow> nat \<Rightarrow> bool list" where
  "corrupt_packet P i j =
     frame_bits 0x2DAA (word_of_nat (length P)) (P[i := flip_bit j (P ! i)])
       (0xFFFF - packet_crc P)"

section \<open>Predicates on decoder states\<close>

text \<open>The sync register holds the sync word or its complement.\<close>

definition is_sync :: "u16 \<Rightarrow> bool" where
  "is_sync r \<longleftrightarrow> r = 0x2DAA \<or> r = 0xD255"

text \<open>The register after one more bit.\<close>

definition shift_in :: "'a::len word \<Rightarrow> bool \<Rightarrow> 'a word" where
  "shift_in r b = push_bit 1 r OR of_bool b"

text \<open>
  A register from which the sixteen bits of the sync word lock on the sixteenth bit and
  not before: its low 15 bits are not the first 15 bits of the sync word.
\<close>

definition aligned :: "u16 \<Rightarrow> bool" where
  "aligned r \<longleftrightarrow> take_bit 15 r \<noteq> 0x16D5"

text \<open>The packet in progress: the variables that a sync match initialises.\<close>

definition packet_state :: "decoder \<Rightarrow> int \<times> int \<times> u16 \<times> u16" where
  "packet_state st = (len st, offset st, computedCrc st, readCrc st)"

text \<open>Everything but the verbose flag and the output.\<close>

definition control_state ::
  "decoder \<Rightarrow> u16 \<times> u8 \<times> u8 list \<times> bool \<times> int \<times> int \<times> u16 \<times> u16 \<times> int" where
  "control_state st =
     (syncBuffer st, byte st, buffer st, packetSync st, len st, offset st,
      computedCrc st, readCrc st, skipBit st)"

text \<open>
  The bounds that hold of the assembler between a sync match and the end of the packet
  attempt.
\<close>

definition assembler_inv :: "decoder \<Rightarrow> bool" where
  "assembler_inv st \<longleftrightarrow>
     length (buffer st) = nat MAX_PACKET_SIZE \<and>
     (packetSync st \<longrightarrow>
        (len st = - 1 \<and> offset st = 0) \<or>
        (0 \<le> len st \<and> len st \<le> 254 \<and> 0 \<le> offset st \<and> offset st \<le> len st + 1))"

text \<open>The first fifteen bits of the sync word, most significant first.\<close>

definition sync15 :: "bool list" where
  "sync15 = [False, False, True, False, True, True, False, True, True, False, True,
             False, True, False, True]"

text \<open>
  What a run over a bit stream prints, and the payloads of the packets among it: the
  output of the final state beyond what the starting state had already printed.
\<close>

definition printed :: "decoder \<Rightarrow> bool list \<Rightarrow> error + message list" where
  "printed st bs =
     (case processBits st bs of
        Inl e \<Rightarrow> Inl e
      | Inr st' \<Rightarrow> Inr (drop (length (stdout st)) (stdout st')))"

definition emitted :: "decoder \<Rightarrow> bool list \<Rightarrow> error + u8 list list" where
  "emitted st bs = (case printed st bs of Inl e \<Rightarrow> Inl e | Inr ms \<Rightarrow> Inr (packets ms))"

text \<open>Whether the decoder is locked after a run.\<close>

definition locked_after :: "decoder \<Rightarrow> bool list \<Rightarrow> error + bool" where
  "locked_after st bs =
     (case processBits st bs of Inl e \<Rightarrow> Inl e | Inr st' \<Rightarrow> Inr (packetSync st'))"

text \<open>
  Two decoder states that differ at most in the verbose flag and in the diagnostics
  printed, and two outcomes of a run that are the same error or two such states.
\<close>

definition same_run :: "decoder \<Rightarrow> decoder \<Rightarrow> bool" where
  "same_run a b \<longleftrightarrow>
     control_state a = control_state b \<and> packets (stdout a) = packets (stdout b)"

definition same_outcome :: "error + decoder \<Rightarrow> error + decoder \<Rightarrow> bool" where
  "same_outcome x y =
     (case x of
        Inl e \<Rightarrow> (case y of Inl e' \<Rightarrow> e = e' | Inr b \<Rightarrow> False)
      | Inr a \<Rightarrow> (case y of Inl e' \<Rightarrow> False | Inr b \<Rightarrow> same_run a b))"

section \<open>Word arithmetic of the promoted operands\<close>

text \<open>
  The C expressions compute in \<open>int\<close> and store into 8- and 16-bit variables. Each lemma
  here gives the stored value directly on the narrow word.
\<close>

subsection \<open>The CRC rounds\<close>

lemma ucast_push_bit_promoted: "(ucast (push_bit n (ucast (w::u16) :: c_int)) :: u16) = push_bit n w"
  by (rule bit_word_eqI) (auto simp: bit_simps)

lemma ucast_xor_down: "(ucast ((a::c_int) XOR b) :: u16) = ucast a XOR ucast b"
  by (rule bit_word_eqI) (auto simp: bit_simps)

lemma ucast_ucast_promoted: "(ucast (ucast (w::u16) :: c_int) :: u16) = w"
  by (rule bit_word_eqI) (auto simp: bit_simps)

lemma ucast_push_bit_byte: "(ucast (push_bit n (ucast (d::u8) :: c_int)) :: u16) = push_bit n (ucast d)"
  by (rule bit_word_eqI) (auto simp: bit_simps)

lemma high_bit_test: "((ucast (crc::u16) :: c_int) AND 0x8000 \<noteq> 0) = bit crc 15"
  using and_exp_eq_0_iff_not_bit [of "ucast crc :: c_int" 15] by (simp add: bit_simps)

lemma crc_round_word: "crc_round crc = (if bit crc 15 then push_bit 1 crc XOR 0x1021 else push_bit 1 crc)"
  unfolding crc_round_def high_bit_test ucast_xor_down ucast_push_bit_promoted by simp

lemma crc_loop_unroll: "crc_loop 0 c = (crc_round ^^ 8) c"
  by (simp add: crc_loop.simps[of 0] crc_loop.simps[of 1] crc_loop.simps[of 2] crc_loop.simps[of 3]
   crc_loop.simps[of 4] crc_loop.simps[of 5] crc_loop.simps[of 6] crc_loop.simps[of 7] crc_loop.simps[of 8] numeral_eq_Suc funpow_swap1)

lemma crc_xmodem_update_word: "crc_xmodem_update crc d = (crc_round ^^ 8) (crc XOR push_bit 8 (ucast d))"
  unfolding crc_xmodem_update_def crc_loop_unroll ucast_xor_down ucast_push_bit_byte ucast_ucast_promoted ..

lemma unat_crc_round: "unat (crc_round c) = ref_round (unat c)"
proof -
  have a: "unat (push_bit 1 c) = push_bit 1 (unat c) mod 2 ^ 16"
    by (simp only: unsigned_push_bit_eq take_bit_eq_mod) simp
  have lt: "unat (push_bit 1 c XOR 0x1021) < 2 ^ 16"
    using unsigned_less [of "push_bit 1 c XOR 0x1021", where 'a = nat] by simp
  have k: "unat (0x1021 :: u16) = 0x1021" by simp
  have "unat (push_bit 1 c XOR 0x1021) = push_bit 1 (unat c) mod 2 ^ 16 XOR 0x1021"
    unfolding unsigned_xor_eq a k ..
  with lt have b: "unat (push_bit 1 c XOR 0x1021) = (push_bit 1 (unat c) mod 2 ^ 16 XOR 0x1021) mod 2 ^ 16"
    by (metis mod_less)
  have c: "bit (unat c) 15 = bit c 15" by (simp add: bit_unsigned_iff)
  show ?thesis unfolding crc_round_word ref_round_def c using a b by (simp only: if_distrib [of unat] split: if_splits)
qed

lemma unat_funpow: "unat ((crc_round ^^ n) c) = (ref_round ^^ n) (unat c)"
  by (induction n) (simp_all add: unat_crc_round)

lemma unat_crc_init: "unat ((crc::u16) XOR push_bit 8 (ucast (d::u8))) = (unat crc XOR push_bit 8 (unat d)) mod 2 ^ 16"
proof -
  have "unat d < 2 ^ 8"
    using unsigned_less [of d, where 'a = nat] by simp
  then have "push_bit 8 (unat d) < 2 ^ 16"
    by (simp add: push_bit_eq_mult)
  then have "take_bit 16 (push_bit 8 (unat d)) = push_bit 8 (unat d)"
    by (simp only: take_bit_nat_eq_self)
  moreover have "unat (ucast d :: u16) = unat d"
    using \<open>unat d < 2 ^ 8\<close> by (simp add: unsigned_ucast_eq take_bit_nat_eq_self)
  ultimately have "unat (push_bit 8 (ucast d :: u16)) = push_bit 8 (unat d)"
    by (simp only: unsigned_push_bit_eq) simp
  then have "unat (crc XOR push_bit 8 (ucast d)) = unat crc XOR push_bit 8 (unat d)"
    by (simp only: unsigned_xor_eq)
  moreover have "unat (crc XOR push_bit 8 (ucast d)) < 2 ^ 16"
    using unsigned_less [of "crc XOR push_bit 8 (ucast d)", where 'a = nat] by simp
  ultimately show ?thesis by (metis mod_less)
qed

subsection \<open>Shifts, comparisons and the complement in the decoder\<close>

lemma byte_shift_word:
  "(ucast (push_bit n (ucast (x::u8) :: c_int) OR of_bool b) :: u8) = push_bit n x OR of_bool b"
  by (rule bit_word_eqI) (auto simp: bit_simps)

lemma sync_shift_word:
  "(ucast (push_bit n (ucast (r::u16) :: c_int) OR of_bool b) :: u16) = push_bit n r OR of_bool b"
  by (rule bit_word_eqI) (auto simp: bit_simps)

lemma ucast_eq_numeral_iff: "((ucast (r::u16) :: c_int) = ucast (k::u16)) = (r = k)"
proof
  assume "(ucast r :: c_int) = ucast k"
  then have "(ucast (ucast r :: c_int) :: u16) = ucast (ucast k :: c_int)" by simp
  moreover have "\<And>w::u16. (ucast (ucast w :: c_int) :: u16) = w"
    by (rule bit_word_eqI) (auto simp: bit_simps)
  ultimately show "r = k" by simp
qed simp

lemma sync_test_word:
  "((ucast (r::u16) :: c_int) = SYNC_WORD \<or> (ucast r :: c_int) = 0xffff - SYNC_WORD) = is_sync r"
  using ucast_eq_numeral_iff [of r "0x2DAA"] ucast_eq_numeral_iff [of r "0xD255"]
  by (simp add: SYNC_WORD_def is_sync_def)

lemma read_hi_word:
  "(ucast ((ucast (r::u16) :: c_int) OR push_bit 8 (ucast (b::u8) :: c_int)) :: u16) = r OR push_bit 8 (ucast b)"
  by (rule bit_word_eqI) (auto simp: bit_simps)

lemma read_lo_word:
  "(ucast ((ucast (r::u16) :: c_int) OR (ucast (b::u8) :: c_int)) :: u16) = r OR ucast b"
  by (rule bit_word_eqI) (auto simp: bit_simps)

lemma complement_word:
  "(ucast ((0xffff :: c_int) - ucast (r::u16)) :: u16) = 0xFFFF - r"
proof -
  have up: "uint (ucast r :: c_int) = uint r"
    by (rule uint_up_ucast) (simp add: is_up)
  have "uint r < 2 ^ 16"
    using uint_lt2p [of r] by simp
  then have "uint (ucast r :: c_int) \<le> uint (0xffff :: c_int)"
    by (simp add: up)
  then have "uint ((0xffff :: c_int) - ucast r) = 0xffff - uint r"
    by (simp add: uint_sub_lem [THEN iffD1] up)
  then have "(ucast ((0xffff :: c_int) - ucast r) :: u16) = word_of_int (0xffff - uint r)"
    by (simp only: ucast_eq [of "(0xffff :: c_int) - ucast r"])
  also have "\<dots> = word_of_int 0xffff - word_of_int (uint r)"
    by (simp only: wi_hom_sub)
  finally show ?thesis by simp
qed

subsection \<open>Bits shifted into a register\<close>

lemma bit_shift_in:
  "bit (shift_in (r::'a::len word) b) n \<longleftrightarrow> n < LENGTH('a) \<and> (if n = 0 then b else bit r (n - 1))"
  unfolding shift_in_def by (cases n) (auto simp: bit_simps simp del: push_bit_Suc One_nat_def)

lemma bit_foldl_shift_in:
  "bit (foldl shift_in (r::'a::len word) bs) n \<longleftrightarrow>
     n < LENGTH('a) \<and> (if n < length bs then rev bs ! n else bit r (n - length bs))"
proof (induction bs arbitrary: r)
  case Nil
  then show ?case by (auto dest: bit_imp_le_length)
next
  case (Cons b bs)
  show ?case
    by (auto simp: Cons.IH bit_shift_in nth_append less_Suc_eq)
qed

lemma byte_assembled: "foldl shift_in (x::u8) (byte_bits c) = c"
  by (rule bit_word_eqI) (simp add: bit_foldl_shift_in byte_bits_def rev_map rev_nth)

section \<open>The CRC update against its reference definition\<close>

text \<open>
  Claim C2. For every 16-bit running value and every byte, \<open>crc_xmodem_update\<close> returns
  the value of the reference definition of the specification: XOR the byte, shifted left by
  eight, into the running value, then eight times shift left by one and XOR \<open>0x1021\<close> in
  when the high bit was set, every intermediate result reduced modulo \<open>2 ^ 16\<close>. The
  function reads and writes nothing but its two arguments, so its model needs no state.
\<close>

theorem crc_xmodem_update_refines_reference:
  "unat (crc_xmodem_update crc b) = ref_crc_update (unat crc) (unat b)"
  unfolding crc_xmodem_update_word unat_funpow ref_crc_update_def unat_crc_init ..

section \<open>Steps of the frame synchroniser\<close>

lemma processBit_searching:
  assumes "\<not> packetSync st"
  shows "processBit st b =
     Inr (if is_sync (shift_in (syncBuffer st) b)
          then st\<lparr>syncBuffer := shift_in (syncBuffer st) b, packetSync := True,
                 stdout := stdout st @ (if verbose st then [Sync_msg (shift_in (syncBuffer st) b)] else []),
                 skipBit := 8, len := - 1, offset := 0, computedCrc := 0x1D0F, readCrc := 0\<rparr>
          else st\<lparr>syncBuffer := shift_in (syncBuffer st) b\<rparr>)"
  using assms
  unfolding processBit_def Let_def shift_in_def sync_shift_word [symmetric]
  by (simp add: sync_test_word del: push_bit_Suc One_nat_def)

lemma processBit_locked:
  assumes "packetSync st"
  shows "processBit st b =
     (if skipBit st - 1 < 1
      then (case processByte (st\<lparr>byte := shift_in (byte st) b, skipBit := 8\<rparr>) (shift_in (byte st) b) of
              Inl e \<Rightarrow> Inl e
            | Inr (flag, st') \<Rightarrow> Inr (st'\<lparr>packetSync := flag\<rparr>))
      else Inr (st\<lparr>byte := shift_in (byte st) b, skipBit := skipBit st - 1\<rparr>))"
  using assms
  unfolding processBit_def Let_def shift_in_def byte_shift_word [symmetric]
  by (simp del: push_bit_Suc One_nat_def)

lemma processBits_append:
  "processBits st (xs @ ys) =
     (case processBits st xs of Inl e \<Rightarrow> Inl e | Inr st' \<Rightarrow> processBits st' ys)"
  by (induction xs arbitrary: st) (auto split: sum.splits)

lemma locked_partial_byte:
  assumes "packetSync st" and "int (length bs) < skipBit st"
  shows "processBits st bs =
     Inr (st\<lparr>byte := foldl shift_in (byte st) bs, skipBit := skipBit st - int (length bs)\<rparr>)"
  using assms
proof (induction bs arbitrary: st)
  case Nil
  then show ?case by simp
next
  case (Cons b bs)
  let ?st' = "st\<lparr>byte := shift_in (byte st) b, skipBit := skipBit st - 1\<rparr>"
  from Cons.prems have step: "processBit st b = Inr ?st'"
    by (simp add: processBit_locked)
  have "processBits ?st' bs =
     Inr (?st'\<lparr>byte := foldl shift_in (byte ?st') bs, skipBit := skipBit ?st' - int (length bs)\<rparr>)"
    using Cons.prems by (intro Cons.IH) simp_all
  with step show ?case by (simp add: algebra_simps)
qed

lemma locked_whole_byte:
  assumes "packetSync st" and "skipBit st = 8"
  shows "processBits st (byte_bits c) =
     (case processByte (st\<lparr>byte := c\<rparr>) c of
        Inl e \<Rightarrow> Inl e
      | Inr (flag, st') \<Rightarrow> Inr (st'\<lparr>packetSync := flag\<rparr>))"
proof -
  define bs where "bs = butlast (byte_bits c)"
  define b where "b = last (byte_bits c)"
  have len8: "length (byte_bits c) = 8" by (simp add: byte_bits_def)
  then have split: "byte_bits c = bs @ [b]"
    unfolding bs_def b_def by (metis append_butlast_last_id list.size(3) zero_neq_numeral)
  with len8 have len7: "length bs = 7" by simp
  let ?st1 = "st\<lparr>byte := foldl shift_in (byte st) bs, skipBit := skipBit st - int (length bs)\<rparr>"
  have first: "processBits st bs = Inr ?st1"
    using assms len7 by (intro locked_partial_byte) simp_all
  have whole: "shift_in (foldl shift_in (byte st) bs) b = c"
    using byte_assembled [of "byte st" c] by (simp add: split)
  have "processBit ?st1 b =
     (case processByte (st\<lparr>byte := c\<rparr>) c of
        Inl e \<Rightarrow> Inl e
      | Inr (flag, st') \<Rightarrow> Inr (st'\<lparr>packetSync := flag\<rparr>))"
  proof -
    have "st\<lparr>byte := c, skipBit := skipBit st\<rparr> = st\<lparr>byte := c\<rparr>" by simp
    then have eq: "st\<lparr>byte := c, skipBit := 8\<rparr> = st\<lparr>byte := c\<rparr>"
      by (simp only: assms(2))
    show ?thesis
      using assms len7 by (simp add: processBit_locked whole eq)
  qed
  with first show ?thesis
    by (simp add: split processBits_append split: sum.splits)
qed

lemma searching_no_match:
  assumes "\<not> packetSync st"
    and "\<forall>j<length bs. \<not> is_sync (foldl shift_in (syncBuffer st) (take (Suc j) bs))"
  shows "processBits st bs = Inr (st\<lparr>syncBuffer := foldl shift_in (syncBuffer st) bs\<rparr>)"
  using assms
proof (induction bs arbitrary: st)
  case Nil
  then show ?case by simp
next
  case (Cons b bs)
  let ?st' = "st\<lparr>syncBuffer := shift_in (syncBuffer st) b\<rparr>"
  from Cons.prems(2) have "\<not> is_sync (shift_in (syncBuffer st) b)"
    by (auto dest: spec [of _ 0])
  with Cons.prems(1) have step: "processBit st b = Inr ?st'"
    by (simp add: processBit_searching)
  have "\<forall>j<length bs. \<not> is_sync (foldl shift_in (syncBuffer ?st') (take (Suc j) bs))"
    using Cons.prems(2) by (auto dest: spec [of _ "Suc j" for j])
  with Cons.prems(1) have "processBits ?st' bs = Inr (?st'\<lparr>syncBuffer := foldl shift_in (syncBuffer ?st') bs\<rparr>)"
    by (intro Cons.IH) simp_all
  with step show ?case by simp
qed

lemma take_bit_foldl_shift_in:
  "take_bit (length bs) (foldl shift_in (r::'a::len word) bs) = take_bit (length bs) (foldl shift_in 0 bs)"
  by (rule bit_word_eqI) (simp add: bit_take_bit_iff bit_foldl_shift_in)

lemma word_assembled: "foldl shift_in (r::u16) (word_bits w) = w"
proof (rule bit_word_eqI)
  fix n :: nat
  assume "n < LENGTH(16)"
  then show "bit (foldl shift_in r (word_bits w)) n = bit w n"
    by (auto simp: bit_foldl_shift_in word_bits_def byte_bits_def rev_map rev_nth nth_append bit_simps)
qed

lemma sync_bits: "word_bits 0x2DAA =
   [False, False, True, False, True, True, False, True, True, False, True, False, True, False, True, False]"
  by code_simp

section \<open>Locking on the sync word\<close>

lemma sync_split: "word_bits 0x2DAA = sync15 @ [False]"
  by (simp add: sync_bits sync15_def)

lemma prefix_values:
  "\<forall>k\<in>set [2..<16]. take_bit k (foldl shift_in (0::u16) (take k sync15)) \<noteq> take_bit k 0x2DAA
      \<and> take_bit k (foldl shift_in (0::u16) (take k sync15)) \<noteq> take_bit k 0xD255"
  by code_simp

lemma no_early_sync:
  assumes "aligned r" and "j < 15"
  shows "\<not> is_sync (foldl shift_in r (take (Suc j) sync15))"
proof (cases j)
  case 0
  have "shift_in r False \<noteq> 0x2DAA"
  proof
    assume eq: "shift_in r False = 0x2DAA"
    have "take_bit 15 r = drop_bit 1 (shift_in r False)"
      by (rule bit_word_eqI) (auto simp: bit_simps bit_shift_in)
    also have "\<dots> = 0x16D5" by (simp add: eq)
    finally show False using assms(1) by (simp add: aligned_def)
  qed
  moreover have "shift_in r False \<noteq> 0xD255"
  proof
    assume eq: "shift_in r False = 0xD255"
    have "\<not> bit (shift_in r False) 0" by (simp add: bit_shift_in)
    then show False by (simp add: eq)
  qed
  ultimately show ?thesis using 0 by (simp add: is_sync_def sync15_def)
next
  case (Suc i)
  define k where "k = Suc j"
  have "2 \<le> k \<and> k < 16" using assms(2) Suc by (simp add: k_def)
  then have k: "k \<in> set [2..<16]" by (simp only: set_upt atLeastLessThan_iff)
  have lenk: "length (take k sync15) = k" using assms(2) by (simp add: k_def sync15_def)
  have tb: "take_bit k (foldl shift_in r (take k sync15)) = take_bit k (foldl shift_in 0 (take k sync15))"
    using take_bit_foldl_shift_in [of "take k sync15" r] by (simp only: lenk)
  from prefix_values k have
    "take_bit k (foldl shift_in (0::u16) (take k sync15)) \<noteq> take_bit k 0x2DAA"
    "take_bit k (foldl shift_in (0::u16) (take k sync15)) \<noteq> take_bit k 0xD255"
    by blast+
  with tb have "foldl shift_in r (take k sync15) \<noteq> 0x2DAA" "foldl shift_in r (take k sync15) \<noteq> 0xD255"
    by metis+
  then show ?thesis by (simp add: is_sync_def k_def)
qed

lemma aligned_after_lock: "is_sync r \<Longrightarrow> aligned r"
  by (auto simp: is_sync_def aligned_def)

lemma aligned_initial: "aligned (syncBuffer (initial v))"
  by (simp add: initial_def aligned_def)

lemma sync_lock:
  assumes "\<not> packetSync st" and "aligned (syncBuffer st)"
  shows "processBits st (word_bits 0x2DAA) =
     Inr (st\<lparr>syncBuffer := 0x2DAA, packetSync := True,
             stdout := stdout st @ (if verbose st then [Sync_msg 0x2DAA] else []),
             skipBit := 8, len := - 1, offset := 0, computedCrc := 0x1D0F, readCrc := 0\<rparr>)"
proof -
  let ?st1 = "st\<lparr>syncBuffer := foldl shift_in (syncBuffer st) sync15\<rparr>"
  have "\<forall>j<length sync15. \<not> is_sync (foldl shift_in (syncBuffer st) (take (Suc j) sync15))"
    using no_early_sync [OF assms(2)] by (simp add: sync15_def)
  with assms(1) have first: "processBits st sync15 = Inr ?st1"
    by (rule searching_no_match)
  have last: "shift_in (foldl shift_in (syncBuffer st) sync15) False = 0x2DAA"
    using word_assembled [of "syncBuffer st" "0x2DAA"] by (simp add: sync_split)
  have "processBit ?st1 False =
     Inr (st\<lparr>syncBuffer := 0x2DAA, packetSync := True,
             stdout := stdout st @ (if verbose st then [Sync_msg 0x2DAA] else []),
             skipBit := 8, len := - 1, offset := 0, computedCrc := 0x1D0F, readCrc := 0\<rparr>)"
    using assms(1) by (simp add: processBit_searching last is_sync_def)
  with first show ?thesis
    by (simp add: sync_split processBits_append)
qed

section \<open>The branches of the packet assembler\<close>

lemma putchar_loop_take:
  assumes "0 \<le> i" and "n \<le> int (length buf)"
  shows "putchar_loop buf n i = Inr (drop (nat i) (take (nat n) buf))"
  using assms
proof (induction buf n i rule: putchar_loop.induct)
  case (1 buf n i)
  show ?case
  proof (cases "i < n")
    case True
    with "1.prems" have inb: "0 \<le> i \<and> i < int (length buf)" by simp
    have rest: "putchar_loop buf n (i + 1) = Inr (drop (nat (i + 1)) (take (nat n) buf))"
      using "1.IH" [OF True inb] "1.prems" by simp
    have "nat i < length (take (nat n) buf)" using True "1.prems" by simp
    then have "drop (nat i) (take (nat n) buf) = take (nat n) buf ! nat i # drop (Suc (nat i)) (take (nat n) buf)"
      by (rule Cons_nth_drop_Suc [symmetric])
    moreover have "take (nat n) buf ! nat i = buf ! nat i" using True "1.prems" by simp
    moreover have "Suc (nat i) = nat (i + 1)" using "1.prems" by simp
    ultimately show ?thesis
      using True inb rest by (subst putchar_loop.simps) simp
  next
    case False
    then show ?thesis using "1.prems" by (subst putchar_loop.simps) simp
  qed
qed

lemma processByte_length:
  assumes "len st = - 1"
  shows "processByte st b =
     Inr (uint b \<le> 254,
          st\<lparr>len := uint b, computedCrc := crc_xmodem_update (computedCrc st) b,
             stdout := stdout st @
               (if verbose st
                then [if uint b \<le> 254 then Parsing_msg (uint b) else Length_skip_msg (uint b) 254]
                else [])\<rparr>)"
  using assms by (simp add: processByte_def MAX_PACKET_SIZE_def Let_def)

lemma processByte_data:
  assumes "len st \<noteq> - 1" and "offset st < len st"
    and "0 \<le> offset st" and "offset st < int (length (buffer st))"
  shows "processByte st b =
     Inr (True,
          st\<lparr>buffer := (buffer st)[nat (offset st) := b], offset := offset st + 1,
             computedCrc := crc_xmodem_update (computedCrc st) b\<rparr>)"
  using assms by (simp add: processByte_def)

lemma processByte_crc_hi:
  assumes "len st \<noteq> - 1" and "offset st = len st"
  shows "processByte st b =
     Inr (True, st\<lparr>readCrc := readCrc st OR push_bit 8 (ucast b), offset := offset st + 1\<rparr>)"
  using assms by (simp add: processByte_def read_hi_word)

lemma processByte_crc_lo:
  assumes "len st \<noteq> - 1" and "offset st = len st + 1" and "len st \<le> int (length (buffer st))"
  shows "processByte st b =
     Inr (False,
          st\<lparr>readCrc := 0xFFFF - (readCrc st OR ucast b),
             stdout := stdout st @
               (if computedCrc st = 0xFFFF - (readCrc st OR ucast b)
                then [Packet_msg (take (nat (len st)) (buffer st))]
                else if verbose st
                then [Crc_mismatch_msg (0xFFFF - (readCrc st OR ucast b)) (computedCrc st)]
                else [])\<rparr>)"
  using assms
  by (simp add: processByte_def Let_def read_lo_word complement_word putchar_loop_take)

section \<open>A frame through the locked decoder\<close>

lemma feed_data_byte:
  assumes "packetSync st" and "skipBit st = 8" and "len st \<noteq> - 1" and "offset st < len st"
    and "0 \<le> offset st" and "offset st < int (length (buffer st))"
  shows "processBits st (byte_bits c) =
     Inr (st\<lparr>byte := c, buffer := (buffer st)[nat (offset st) := c], offset := offset st + 1,
             computedCrc := crc_xmodem_update (computedCrc st) c\<rparr>)"
proof -
  have "processByte (st\<lparr>byte := c\<rparr>) c =
     Inr (True,
          st\<lparr>byte := c, buffer := (buffer st)[nat (offset st) := c], offset := offset st + 1,
             computedCrc := crc_xmodem_update (computedCrc st) c\<rparr>)"
    using assms by (simp add: processByte_data)
  then show ?thesis
    using assms(1,2) by (simp add: locked_whole_byte)
qed

lemma feed_payload:
  assumes "packetSync st" and "skipBit st = 8" and "len st \<noteq> - 1" and "0 \<le> offset st"
    and "offset st + int (length Q) \<le> len st" and "len st \<le> int (length (buffer st))"
  shows "processBits st (bytes_bits Q) =
     Inr (st\<lparr>byte := last (byte st # Q),
             buffer := take (nat (offset st)) (buffer st) @ Q @
                       drop (nat (offset st) + length Q) (buffer st),
             offset := offset st + int (length Q),
             computedCrc := crc_of (computedCrc st) Q\<rparr>)"
  using assms
proof (induction Q arbitrary: st)
  case Nil
  then show ?case by (simp add: bytes_bits_def crc_of_def)
next
  case (Cons c Q)
  let ?st1 = "st\<lparr>byte := c, buffer := (buffer st)[nat (offset st) := c], offset := offset st + 1,
             computedCrc := crc_xmodem_update (computedCrc st) c\<rparr>"
  have inb: "nat (offset st) < length (buffer st)" using Cons.prems by simp
  have first: "processBits st (byte_bits c) = Inr ?st1"
    using Cons.prems by (intro feed_data_byte) simp_all
  have rest: "processBits ?st1 (bytes_bits Q) =
     Inr (?st1\<lparr>byte := last (byte ?st1 # Q),
             buffer := take (nat (offset ?st1)) (buffer ?st1) @ Q @
                       drop (nat (offset ?st1) + length Q) (buffer ?st1),
             offset := offset ?st1 + int (length Q),
             computedCrc := crc_of (computedCrc ?st1) Q\<rparr>)"
    using Cons.prems by (intro Cons.IH) simp_all
  have n1: "nat (offset st + 1) = Suc (nat (offset st))" using Cons.prems by simp
  have buf: "take (nat (offset st + 1)) ((buffer st)[nat (offset st) := c]) @ Q @
          drop (nat (offset st + 1) + length Q) ((buffer st)[nat (offset st) := c]) =
        take (nat (offset st)) (buffer st) @ (c # Q) @
          drop (nat (offset st) + length (c # Q)) (buffer st)"
    using inb by (simp add: n1 take_Suc_conv_app_nth)
  show ?case
    using first rest buf
    by (simp add: bytes_bits_def processBits_append crc_of_def add.assoc)
qed

lemma crc_word_joined:
  "push_bit 8 (ucast (ucast (drop_bit 8 (c::u16)) :: u8)) OR ucast (ucast c :: u8) = c"
  by (rule bit_word_eqI) (auto simp: bit_simps)

lemma decode_frame:
  assumes search: "\<not> packetSync st" and al: "aligned (syncBuffer st)"
    and buf: "length (buffer st) = 255" and short: "length Q \<le> 254"
  shows "processBits st (frame_bits 0x2DAA (word_of_nat (length Q)) Q c) =
     Inr (st\<lparr>syncBuffer := 0x2DAA, byte := ucast c,
             buffer := Q @ drop (length Q) (buffer st), packetSync := False,
             len := int (length Q), offset := int (length Q) + 1,
             computedCrc := crc_of CRC_START (word_of_nat (length Q) # Q),
             readCrc := 0xFFFF - c, skipBit := 8,
             stdout := stdout st @
               (if verbose st then [Sync_msg 0x2DAA, Parsing_msg (int (length Q))] else []) @
               (if crc_of CRC_START (word_of_nat (length Q) # Q) = 0xFFFF - c
                then [Packet_msg Q]
                else if verbose st
                then [Crc_mismatch_msg (0xFFFF - c) (crc_of CRC_START (word_of_nat (length Q) # Q))]
                else [])\<rparr>)"
proof -
  define l :: u8 where "l = word_of_nat (length Q)"
  define n where "n = int (length Q)"
  define hi :: u8 where "hi = ucast (drop_bit 8 c)"
  define lo :: u8 where "lo = ucast c"
  define crc where "crc = crc_of CRC_START (l # Q)"
  have ul: "uint l = n"
    using short by (simp add: l_def n_def unsigned_of_nat take_bit_nat_eq_self)
  have n254: "n \<le> 254" "0 \<le> n" using short by (simp_all add: n_def)
  define st1 where "st1 = st\<lparr>syncBuffer := 0x2DAA, packetSync := True,
             stdout := stdout st @ (if verbose st then [Sync_msg 0x2DAA] else []),
             skipBit := 8, len := - 1, offset := 0, computedCrc := 0x1D0F, readCrc := 0\<rparr>"
  have s1: "processBits st (word_bits 0x2DAA) = Inr st1"
    unfolding st1_def using search al by (rule sync_lock)
  define st2 where "st2 = st1\<lparr>byte := l, len := n, computedCrc := crc_xmodem_update 0x1D0F l,
             stdout := stdout st1 @ (if verbose st then [Parsing_msg n] else [])\<rparr>"
  have s2: "processBits st1 (byte_bits l) = Inr st2"
    using n254 by (simp add: locked_whole_byte st1_def st2_def processByte_length ul)
  define st3 where "st3 = st2\<lparr>byte := last (l # Q), buffer := Q @ drop (length Q) (buffer st),
             offset := n, computedCrc := crc\<rparr>"
  have "processBits st2 (bytes_bits Q) =
     Inr (st2\<lparr>byte := last (byte st2 # Q),
             buffer := take (nat (offset st2)) (buffer st2) @ Q @
                       drop (nat (offset st2) + length Q) (buffer st2),
             offset := offset st2 + int (length Q),
             computedCrc := crc_of (computedCrc st2) Q\<rparr>)"
    using n254 buf short by (intro feed_payload) (simp_all add: st2_def st1_def n_def)
  then have s3: "processBits st2 (bytes_bits Q) = Inr st3"
    by (simp add: st3_def st2_def st1_def n_def crc_def crc_of_def CRC_START_def)
  define st4 where "st4 = st3\<lparr>byte := hi, readCrc := push_bit 8 (ucast hi), offset := n + 1\<rparr>"
  have s4: "processBits st3 (byte_bits hi) = Inr st4"
    using n254 by (simp add: locked_whole_byte st4_def st3_def st2_def st1_def processByte_crc_hi)
  define st5 where "st5 = st4\<lparr>byte := lo, readCrc := 0xFFFF - c, packetSync := False,
             stdout := stdout st2 @
               (if crc = 0xFFFF - c then [Packet_msg Q]
                else if verbose st then [Crc_mismatch_msg (0xFFFF - c) crc] else [])\<rparr>"
  have joined: "push_bit 8 (ucast hi) OR ucast lo = c"
    unfolding hi_def lo_def by (rule crc_word_joined)
  have s5: "processBits st4 (byte_bits lo) = Inr st5"
    using n254 buf short
    by (simp add: locked_whole_byte st5_def st4_def st3_def st2_def st1_def processByte_crc_lo
        joined n_def)
  have "processBits st (frame_bits 0x2DAA l Q c) = Inr st5"
    using s1 s2 s3 s4 s5
    by (simp add: frame_bits_def word_bits_def [of c] processBits_append hi_def lo_def)
  then show ?thesis
    by (simp add: st5_def st4_def st3_def st2_def st1_def l_def n_def crc_def lo_def)
qed

section \<open>Injectivity of the CRC\<close>

lemma xor_cancel_right: "x XOR (k::'a::len word) = y XOR k \<Longrightarrow> x = y"
proof -
  assume "x XOR k = y XOR k"
  then have "(x XOR k) XOR k = (y XOR k) XOR k" by simp
  then show "x = y" by (simp add: xor.assoc)
qed

lemma xor_cancel_left: "(k::'a::len word) XOR x = k XOR y \<Longrightarrow> x = y"
  using xor_cancel_right [of x k y] by (simp add: xor.commute)

lemma bit0_crc_round: "bit (crc_round a) 0 = bit a 15"
  unfolding crc_round_word 
  by (simp add: bit_simps del: push_bit_Suc One_nat_def)

lemma crc_round_inj:
  assumes "crc_round a = crc_round b"
  shows "a = b"
proof -
  have top: "bit a 15 = bit b 15"
    using assms bit0_crc_round [of a] bit0_crc_round [of b] by simp
  have "x XOR (k::u16) = y XOR k \<Longrightarrow> x = y" for x y k
    by (rule xor_cancel_right)
  with assms top have sh: "push_bit 1 a = push_bit 1 b"
    unfolding crc_round_word by (simp split: if_splits del: push_bit_Suc One_nat_def)
  show ?thesis
  proof (rule bit_word_eqI)
    fix n :: nat
    assume "n < LENGTH(16)"
    show "bit a n = bit b n"
    proof (cases "n = 15")
      case True
      with top show ?thesis by simp
    next
      case False
      with \<open>n < LENGTH(16)\<close> have "Suc n < 16" by simp
      then have "bit a n = bit (push_bit 1 a) (Suc n)" "bit b n = bit (push_bit 1 b) (Suc n)"
        by (simp_all add: bit_simps del: push_bit_Suc One_nat_def)
      with sh show ?thesis by simp
    qed
  qed
qed

lemma crc_rounds_inj: "(crc_round ^^ k) a = (crc_round ^^ k) b \<Longrightarrow> a = b"
  by (induction k) (auto dest: crc_round_inj)

lemma crc_update_inj_crc:
  assumes "crc_xmodem_update a d = crc_xmodem_update b d"
  shows "a = b"
proof -
  from assms have "a XOR push_bit 8 (ucast d) = b XOR push_bit 8 (ucast d)"
    unfolding crc_xmodem_update_word by (rule crc_rounds_inj)
  then show ?thesis by (rule xor_cancel_right)
qed

lemma crc_update_inj_data:
  assumes "crc_xmodem_update a d = crc_xmodem_update a e"
  shows "d = e"
proof -
  from assms have "a XOR push_bit 8 (ucast d) = a XOR push_bit 8 (ucast e)"
    unfolding crc_xmodem_update_word by (rule crc_rounds_inj)
  then have eq: "push_bit 8 (ucast d :: u16) = push_bit 8 (ucast e)"
    by (rule xor_cancel_left)
  show ?thesis
  proof (rule bit_word_eqI)
    fix n :: nat
    assume "n < LENGTH(8)"
    then have "bit d n = bit (push_bit 8 (ucast d :: u16)) (n + 8)"
      "bit e n = bit (push_bit 8 (ucast e :: u16)) (n + 8)"
      by (simp_all add: bit_simps)
    with eq show "bit d n = bit e n" by simp
  qed
qed

lemma crc_of_inj_seed: "crc_of a bs = crc_of b bs \<Longrightarrow> a = b"
  unfolding crc_of_def
  by (induction bs arbitrary: a b) (auto dest: crc_update_inj_crc)

lemma crc_of_one_byte_changed:
  assumes "i < length P" and "c \<noteq> P ! i"
  shows "crc_of s (P[i := c]) \<noteq> crc_of s P"
proof
  assume eq: "crc_of s (P[i := c]) = crc_of s P"
  have P: "P = take i P @ P ! i # drop (Suc i) P"
    using assms(1) by (simp add: id_take_nth_drop [symmetric])
  have P': "P[i := c] = take i P @ c # drop (Suc i) P"
    using assms(1) by (simp add: upd_conv_take_nth_drop)
  have "crc_of s (take i P @ c # drop (Suc i) P) = crc_of s (take i P @ P ! i # drop (Suc i) P)"
    using eq P P' by simp
  then have "crc_of (crc_xmodem_update (crc_of s (take i P)) c) (drop (Suc i) P) =
     crc_of (crc_xmodem_update (crc_of s (take i P)) (P ! i)) (drop (Suc i) P)"
    by (simp add: crc_of_def)
  then have "crc_xmodem_update (crc_of s (take i P)) c = crc_xmodem_update (crc_of s (take i P)) (P ! i)"
    by (rule crc_of_inj_seed)
  then have "c = P ! i" by (rule crc_update_inj_data)
  with assms(2) show False by simp
qed

lemma flip_bit_changes: "j < 8 \<Longrightarrow> flip_bit j (c::u8) \<noteq> c"
proof
  assume "j < 8" and eq: "flip_bit j c = c"
  have "bit (flip_bit j c) j = (\<not> bit c j)"
    using \<open>j < 8\<close> by (simp add: bit_simps)
  with eq show False by simp
qed

section \<open>Decoding a valid packet\<close>

lemma packets_append: "packets (xs @ ys) = packets xs @ packets ys"
  by (induction xs rule: packets.induct) simp_all

lemma buffer_size: "nat MAX_PACKET_SIZE = 255"
  by (simp add: MAX_PACKET_SIZE_def)

text \<open>
  Claim C1, amended. Let the decoder be searching, with a sync register whose low 15 bits
  are not \<open>0x16D5\<close> (the register of a freshly started decoder and the register left by
  an earlier lock are such). For every payload \<open>P\<close> of 0 to 254 bytes, the bit stream made
  of the 16 bits of the sync word, the length byte, \<open>P\<close>, and the two bytes of \<open>0xFFFF\<close>
  minus the CRC16 (seed \<open>0x1D0F\<close>) of the length byte followed by \<open>P\<close> makes the decoder
  print exactly one packet, with payload \<open>P\<close>, and leaves it searching.
\<close>

theorem decode_valid_packet:
  assumes "\<not> packetSync st" and "aligned (syncBuffer st)"
    and "length (buffer st) = nat MAX_PACKET_SIZE" and "length P \<le> 254"
  shows "printed st (encode_packet P) =
           Inr ((if verbose st then [Sync_msg 0x2DAA, Parsing_msg (int (length P))] else []) @
                [Packet_msg P])
       \<and> emitted st (encode_packet P) = Inr [P]
       \<and> locked_after st (encode_packet P) = Inr False"
proof -
  have "length (buffer st) = 255" using assms(3) by (simp add: buffer_size)
  note run = decode_frame [OF assms(1,2) this assms(4), of "0xFFFF - packet_crc P"]
  have crc: "crc_of CRC_START (word_of_nat (length P) # P) = 0xFFFF - (0xFFFF - packet_crc P)"
    by (simp add: packet_crc_def)
  show ?thesis
    unfolding emitted_def printed_def locked_after_def encode_packet_def run
    by (simp add: crc packets_append)
qed

text \<open>The theorem at the payload \<open>ABC\<close> of the specification's example, on a fresh decoder.\<close>

theorem decode_valid_packet_witness:
  "\<not> packetSync (initial False) \<and> aligned (syncBuffer (initial False))
   \<and> length (buffer (initial False)) = nat MAX_PACKET_SIZE
   \<and> length [0x41, 0x42, 0x43 :: u8] \<le> 254
   \<and> printed (initial False) (encode_packet [0x41, 0x42, 0x43]) = Inr [Packet_msg [0x41, 0x42, 0x43]]
   \<and> emitted (initial False) (encode_packet [0x41, 0x42, 0x43]) = Inr [[0x41, 0x42, 0x43]]
   \<and> locked_after (initial False) (encode_packet [0x41, 0x42, 0x43]) = Inr False"
  using decode_valid_packet [of "initial False" "[0x41, 0x42, 0x43]"]
  by (simp add: initial_def aligned_def buffer_size)

text \<open>
  Claim C1 as stated, for any searching decoder, fails. Sixteen bits \<open>0x16D5\<close> leave a
  fresh decoder searching with that value in the register; the first bit of the sync word
  then completes \<open>0x2DAA\<close>, the decoder locks fifteen bits early, reads the rest of the
  sync word as the length byte \<open>0x5B\<close>, and prints no packet for the frame of \<open>ABC\<close>.
\<close>

theorem early_lock_counterexample:
  "processBits (initial False) (word_bits 0x16D5) = Inr ((initial False)\<lparr>syncBuffer := 0x16D5\<rparr>)
   \<and> packetSync ((initial False)\<lparr>syncBuffer := 0x16D5\<rparr>) = False
   \<and> emitted ((initial False)\<lparr>syncBuffer := 0x16D5\<rparr>) (encode_packet [0x41, 0x42, 0x43]) = Inr []
   \<and> emitted (initial False) (word_bits 0x16D5 @ encode_packet [0x41, 0x42, 0x43]) = Inr []"
  by code_simp

section \<open>Sensitivity of the CRC to a flipped payload bit\<close>

text \<open>
  Claim C8, amended. For every payload \<open>P\<close> of 0 to 254 bytes, take the valid frame of \<open>P\<close>
  and flip one bit \<open>j\<close> of one payload byte \<open>i\<close>, keeping the transmitted CRC bytes. A
  decoder that is searching, with a sync register whose low 15 bits are not \<open>0x16D5\<close> (the
  register of a freshly started decoder and the register left by an earlier lock are such),
  prints no packet on this bit stream and returns to searching.
\<close>

theorem payload_bit_flip_suppresses_packet:
  assumes "\<not> packetSync st" and "aligned (syncBuffer st)"
    and "length (buffer st) = nat MAX_PACKET_SIZE" and "length P \<le> 254"
    and "i < length P" and "j < 8"
  shows "emitted st (corrupt_packet P i j) = Inr []
       \<and> locked_after st (corrupt_packet P i j) = Inr False"
proof -
  define Q where "Q = P[i := flip_bit j (P ! i)]"
  have lenQ: "length Q = length P" by (simp add: Q_def)
  have "length (buffer st) = 255" using assms(3) by (simp add: buffer_size)
  note run = decode_frame [OF assms(1,2) this, of Q "0xFFFF - packet_crc P"]
  have "flip_bit j (P ! i) \<noteq> P ! i" using assms(6) by (rule flip_bit_changes)
  with assms(5)
  have "crc_of (crc_xmodem_update CRC_START (word_of_nat (length P))) Q \<noteq>
        crc_of (crc_xmodem_update CRC_START (word_of_nat (length P))) P"
    unfolding Q_def by (rule crc_of_one_byte_changed)
  then have crc: "crc_of CRC_START (word_of_nat (length Q) # Q) \<noteq> 0xFFFF - (0xFFFF - packet_crc P)"
    by (simp add: packet_crc_def crc_of_def lenQ)
  show ?thesis
    using run assms(4) crc
    unfolding emitted_def printed_def locked_after_def corrupt_packet_def Q_def [symmetric]
    by (simp add: lenQ packets_append)
qed

text \<open>The theorem at \<open>ABC\<close> with the lowest bit of \<open>B\<close> flipped.\<close>

theorem payload_bit_flip_suppresses_packet_witness:
  "\<not> packetSync (initial False) \<and> aligned (syncBuffer (initial False))
   \<and> length (buffer (initial False)) = nat MAX_PACKET_SIZE
   \<and> length [0x41, 0x42, 0x43 :: u8] \<le> 254 \<and> (1::nat) < length [0x41, 0x42, 0x43 :: u8] \<and> (0::nat) < 8
   \<and> corrupt_packet [0x41, 0x42, 0x43] 1 0 =
       frame_bits 0x2DAA 3 [0x41, 0x43, 0x43] (0xFFFF - packet_crc [0x41, 0x42, 0x43])
   \<and> emitted (initial False) (corrupt_packet [0x41, 0x42, 0x43] 1 0) = Inr []
   \<and> locked_after (initial False) (corrupt_packet [0x41, 0x42, 0x43] 1 0) = Inr False"
  using payload_bit_flip_suppresses_packet [of "initial False" "[0x41, 0x42, 0x43]" 1 0]
  by (simp add: initial_def aligned_def buffer_size corrupt_packet_def flip_bit_eq_xor)

text \<open>
  Claim C8 as stated, for a decoder in any state, fails. Sixteen bits \<open>0x16D5\<close> leave a
  fresh decoder searching with that value in the register. The payload here has 92 bytes;
  its frame with the lowest bit of byte 10 flipped is then locked on at its first bit, the
  rest of the sync word is read as the length \<open>0x5B\<close>, the next 91 bytes are the bits of the
  frame shifted by one, the flipped bit among them, and the two bytes after them, which
  lie in the payload bytes 89 to 91, are \<open>0xFFFF\<close> minus their CRC: a packet of 91 bytes is
  printed.
\<close>

theorem early_lock_prints_flipped_frame_counterexample:
  "length (replicate 89 0 @ [0x07, 0xFA, 0x00 :: u8]) = 92
   \<and> processBits (initial False) (word_bits 0x16D5) = Inr ((initial False)\<lparr>syncBuffer := 0x16D5\<rparr>)
   \<and> packetSync ((initial False)\<lparr>syncBuffer := 0x16D5\<rparr>) = False
   \<and> emitted ((initial False)\<lparr>syncBuffer := 0x16D5\<rparr>)
         (corrupt_packet (replicate 89 0 @ [0x07, 0xFA, 0x00]) 10 0) =
       Inr [[0x54, 0xB8] @ replicate 10 0 @ [0x02] @ replicate 78 0]
   \<and> emitted (initial False)
         (word_bits 0x16D5 @ corrupt_packet (replicate 89 0 @ [0x07, 0xFA, 0x00]) 10 0) =
       Inr [[0x54, 0xB8] @ replicate 10 0 @ [0x02] @ replicate 78 0]"
proof -
  have n: "length (replicate 89 0 @ [0x07, 0xFA, 0x00 :: u8]) = 92"
    by simp
  have noise: "processBits (initial False) (word_bits 0x16D5) =
      Inr ((initial False)\<lparr>syncBuffer := 0x16D5\<rparr>)"
    by code_simp
  have search: "packetSync ((initial False)\<lparr>syncBuffer := 0x16D5\<rparr>) = False"
    by (simp add: initial_def)
  have frame: "emitted ((initial False)\<lparr>syncBuffer := 0x16D5\<rparr>)
         (corrupt_packet (replicate 89 0 @ [0x07, 0xFA, 0x00]) 10 0) =
       Inr [[0x54, 0xB8] @ replicate 10 0 @ [0x02] @ replicate 78 0]"
    by code_simp
  have out: "stdout ((initial False)\<lparr>syncBuffer := 0x16D5\<rparr>) = stdout (initial False)"
    by simp
  have whole: "emitted (initial False)
         (word_bits 0x16D5 @ corrupt_packet (replicate 89 0 @ [0x07, 0xFA, 0x00]) 10 0) =
       emitted ((initial False)\<lparr>syncBuffer := 0x16D5\<rparr>)
         (corrupt_packet (replicate 89 0 @ [0x07, 0xFA, 0x00]) 10 0)"
    unfolding emitted_def printed_def processBits_append noise out by simp
  from n noise search frame whole show ?thesis by simp
qed

section \<open>The length byte\<close>

lemma rejected_length:
  assumes "packetSync st" and "skipBit st = 8" and "len st = - 1"
  shows "processBits st (byte_bits 0xFF) =
     Inr (st\<lparr>byte := 0xFF, packetSync := False, len := 255,
             computedCrc := crc_xmodem_update (computedCrc st) 0xFF,
             stdout := stdout st @ (if verbose st then [Length_skip_msg 255 254] else [])\<rparr>)"
  using assms by (simp add: locked_whole_byte processByte_length)

text \<open>
  Claim C4. Let the decoder have just locked (on the sync word or on its complement), so
  that the next byte is consumed as the length. The continuation flag is true exactly for
  lengths up to 254, the byte is fed into the running CRC whatever the flag, and nothing is
  printed but a diagnostic. After the rejection of the length 255 the decoder is searching
  again, no packet has been printed, and a valid frame that follows at once is decoded:
  no bit is lost.
\<close>

theorem length_byte_boundary:
  assumes "packetSync st" and "skipBit st = 8" and "len st = - 1"
    and "is_sync (syncBuffer st)"
    and "length (buffer st) = nat MAX_PACKET_SIZE" and "length P \<le> 254"
  shows "processByte st b =
           Inr (uint b \<le> 254,
                st\<lparr>len := uint b, computedCrc := crc_xmodem_update (computedCrc st) b,
                   stdout := stdout st @
                     (if verbose st
                      then [if uint b \<le> 254 then Parsing_msg (uint b)
                            else Length_skip_msg (uint b) 254]
                      else [])\<rparr>)
       \<and> emitted st (byte_bits 0xFF) = Inr []
       \<and> locked_after st (byte_bits 0xFF) = Inr False
       \<and> emitted st (byte_bits 0xFF @ encode_packet P) = Inr [P]"
proof -
  let ?st' = "st\<lparr>byte := 0xFF, packetSync := False, len := 255,
             computedCrc := crc_xmodem_update (computedCrc st) 0xFF,
             stdout := stdout st @ (if verbose st then [Length_skip_msg 255 254] else [])\<rparr>"
  have first: "processBits st (byte_bits 0xFF) = Inr ?st'"
    using assms(1-3) by (rule rejected_length)
  have "length (buffer ?st') = 255" using assms(5) by (simp add: buffer_size)
  moreover have "\<not> packetSync ?st'" by simp
  moreover have "aligned (syncBuffer ?st')" using assms(4) by (simp add: aligned_after_lock)
  ultimately have second: "processBits ?st' (encode_packet P) =
     Inr (?st'\<lparr>syncBuffer := 0x2DAA, byte := ucast (0xFFFF - packet_crc P),
             buffer := P @ drop (length P) (buffer ?st'), packetSync := False,
             len := int (length P), offset := int (length P) + 1,
             computedCrc := crc_of CRC_START (word_of_nat (length P) # P),
             readCrc := 0xFFFF - (0xFFFF - packet_crc P), skipBit := 8,
             stdout := stdout ?st' @
               (if verbose ?st' then [Sync_msg 0x2DAA, Parsing_msg (int (length P))] else []) @
               (if crc_of CRC_START (word_of_nat (length P) # P) = 0xFFFF - (0xFFFF - packet_crc P)
                then [Packet_msg P]
                else if verbose ?st'
                then [Crc_mismatch_msg (0xFFFF - (0xFFFF - packet_crc P))
                        (crc_of CRC_START (word_of_nat (length P) # P))]
                else [])\<rparr>)"
    unfolding encode_packet_def using assms(6) by (intro decode_frame)
  have crc: "crc_of CRC_START (word_of_nat (length P) # P) = packet_crc P"
    by (simp add: packet_crc_def)
  have a: "emitted st (byte_bits 0xFF) = Inr []"
    and b: "locked_after st (byte_bits 0xFF) = Inr False"
    by (simp_all add: emitted_def printed_def locked_after_def first)
  have c: "emitted st (byte_bits 0xFF @ encode_packet P) = Inr [P]"
    using first second
    by (simp add: emitted_def printed_def processBits_append crc packets_append)
  from assms(3) a b c show ?thesis
    by (simp add: processByte_length)
qed

text \<open>
  The theorem on the state that the sync word leaves a fresh decoder in, at the lengths 254
  and 255 and at the frame of \<open>ABC\<close> after the rejection; and on the state that the
  complemented sync word leaves.
\<close>

theorem length_byte_boundary_witness:
  "processBits (initial False) (word_bits 0x2DAA) =
       Inr ((initial False)\<lparr>syncBuffer := 0x2DAA, packetSync := True\<rparr>)
   \<and> processBits (initial False) (word_bits 0xD255) =
       Inr ((initial False)\<lparr>syncBuffer := 0xD255, packetSync := True\<rparr>)
   \<and> packetSync ((initial False)\<lparr>syncBuffer := 0x2DAA, packetSync := True\<rparr>)
   \<and> skipBit ((initial False)\<lparr>syncBuffer := 0x2DAA, packetSync := True\<rparr>) = 8
   \<and> len ((initial False)\<lparr>syncBuffer := 0x2DAA, packetSync := True\<rparr>) = - 1
   \<and> is_sync (syncBuffer ((initial False)\<lparr>syncBuffer := 0x2DAA, packetSync := True\<rparr>))
   \<and> length (buffer ((initial False)\<lparr>syncBuffer := 0x2DAA, packetSync := True\<rparr>)) =
       nat MAX_PACKET_SIZE
   \<and> length [0x41, 0x42, 0x43 :: u8] \<le> 254
   \<and> processByte ((initial False)\<lparr>syncBuffer := 0x2DAA, packetSync := True\<rparr>) 254 =
       Inr (True, (initial False)\<lparr>syncBuffer := 0x2DAA, packetSync := True, len := 254,
              computedCrc := crc_xmodem_update 0x1D0F 254\<rparr>)
   \<and> processByte ((initial False)\<lparr>syncBuffer := 0x2DAA, packetSync := True\<rparr>) 255 =
       Inr (False, (initial False)\<lparr>syncBuffer := 0x2DAA, packetSync := True, len := 255,
              computedCrc := crc_xmodem_update 0x1D0F 255\<rparr>)
   \<and> emitted ((initial False)\<lparr>syncBuffer := 0x2DAA, packetSync := True\<rparr>) (byte_bits 0xFF) = Inr []
   \<and> locked_after ((initial False)\<lparr>syncBuffer := 0x2DAA, packetSync := True\<rparr>) (byte_bits 0xFF) =
       Inr False
   \<and> emitted ((initial False)\<lparr>syncBuffer := 0x2DAA, packetSync := True\<rparr>)
         (byte_bits 0xFF @ encode_packet [0x41, 0x42, 0x43]) = Inr [[0x41, 0x42, 0x43]]
   \<and> emitted ((initial False)\<lparr>syncBuffer := 0xD255, packetSync := True\<rparr>)
         (byte_bits 0xFF @ encode_packet [0x41, 0x42, 0x43]) = Inr [[0x41, 0x42, 0x43]]"
proof -
  have r1: "processBits (initial False) (word_bits 0x2DAA) =
       Inr ((initial False)\<lparr>syncBuffer := 0x2DAA, packetSync := True\<rparr>)"
    and r2: "processBits (initial False) (word_bits 0xD255) =
       Inr ((initial False)\<lparr>syncBuffer := 0xD255, packetSync := True\<rparr>)"
    by code_simp+
  show ?thesis
    using r1 r2
      length_byte_boundary [of "(initial False)\<lparr>syncBuffer := 0x2DAA, packetSync := True\<rparr>"
        "[0x41, 0x42, 0x43]" 254]
      length_byte_boundary [of "(initial False)\<lparr>syncBuffer := 0x2DAA, packetSync := True\<rparr>"
        "[0x41, 0x42, 0x43]" 255]
      length_byte_boundary [of "(initial False)\<lparr>syncBuffer := 0xD255, packetSync := True\<rparr>"
        "[0x41, 0x42, 0x43]" 255]
    by (simp add: initial_def is_sync_def buffer_size)
qed

section \<open>The second CRC byte\<close>

text \<open>
  Claim C3. When the assembler consumes the byte at offset \<open>len + 1\<close>, the raw received
  value \<open>readCrc OR byte\<close> is replaced by \<open>0xFFFF\<close> minus itself; the payload, the first
  \<open>len\<close> bytes of the buffer, is printed if and only if this value equals the computed
  CRC; a mismatch prints no packet; and the flag is false in both cases, so that the
  decoder is searching after the byte.
\<close>

theorem second_crc_byte_decides:
  assumes "packetSync st" and "skipBit st = 8"
    and "0 \<le> len st" and "len st \<le> 254" and "offset st = len st + 1"
    and "length (buffer st) = nat MAX_PACKET_SIZE"
  shows "processByte st b =
           Inr (False,
                st\<lparr>readCrc := 0xFFFF - (readCrc st OR ucast b),
                   stdout := stdout st @
                     (if computedCrc st = 0xFFFF - (readCrc st OR ucast b)
                      then [Packet_msg (take (nat (len st)) (buffer st))]
                      else if verbose st
                      then [Crc_mismatch_msg (0xFFFF - (readCrc st OR ucast b)) (computedCrc st)]
                      else [])\<rparr>)
       \<and> uint (0xFFFF - (readCrc st OR ucast b)) = 0xFFFF - uint (readCrc st OR ucast b)
       \<and> length (take (nat (len st)) (buffer st)) = nat (len st)
       \<and> emitted st (byte_bits b) =
           Inr (if computedCrc st = 0xFFFF - (readCrc st OR ucast b)
                then [take (nat (len st)) (buffer st)] else [])
       \<and> locked_after st (byte_bits b) = Inr False"
proof -
  have bl: "length (buffer st) = 255" using assms(6) by (simp add: buffer_size)
  have ne: "len st \<noteq> - 1" using assms(3) by simp
  have le: "len st \<le> int (length (buffer st))" using assms(4) bl by simp
  have pb: "processByte st b =
           Inr (False,
                st\<lparr>readCrc := 0xFFFF - (readCrc st OR ucast b),
                   stdout := stdout st @
                     (if computedCrc st = 0xFFFF - (readCrc st OR ucast b)
                      then [Packet_msg (take (nat (len st)) (buffer st))]
                      else if verbose st
                      then [Crc_mismatch_msg (0xFFFF - (readCrc st OR ucast b)) (computedCrc st)]
                      else [])\<rparr>)"
    using ne assms(5) le by (rule processByte_crc_lo)
  have "uint (readCrc st OR ucast b) \<le> uint (0xFFFF :: u16)"
    using uint_lt2p [of "readCrc st OR ucast b"] by simp
  then have sub: "uint (0xFFFF - (readCrc st OR ucast b)) = 0xFFFF - uint (readCrc st OR ucast b)"
    by (simp add: uint_sub_lem [THEN iffD1])
  have ln: "length (take (nat (len st)) (buffer st)) = nat (len st)"
    using assms(4) bl by simp
  have ne': "len (st\<lparr>byte := b\<rparr>) \<noteq> - 1" "offset (st\<lparr>byte := b\<rparr>) = len (st\<lparr>byte := b\<rparr>) + 1"
    "len (st\<lparr>byte := b\<rparr>) \<le> int (length (buffer (st\<lparr>byte := b\<rparr>)))"
    using ne assms(5) le by simp_all
  have run: "processBits st (byte_bits b) =
     Inr (st\<lparr>byte := b, packetSync := False, readCrc := 0xFFFF - (readCrc st OR ucast b),
             stdout := stdout st @
               (if computedCrc st = 0xFFFF - (readCrc st OR ucast b)
                then [Packet_msg (take (nat (len st)) (buffer st))]
                else if verbose st
                then [Crc_mismatch_msg (0xFFFF - (readCrc st OR ucast b)) (computedCrc st)]
                else [])\<rparr>)"
    using assms(1,2) by (simp add: locked_whole_byte processByte_crc_lo [OF ne'])
  have em: "emitted st (byte_bits b) =
           Inr (if computedCrc st = 0xFFFF - (readCrc st OR ucast b)
                then [take (nat (len st)) (buffer st)] else [])"
    and la: "locked_after st (byte_bits b) = Inr False"
    by (simp_all add: emitted_def printed_def locked_after_def run)
  from pb sub ln em la show ?thesis by (intro conjI)
qed

text \<open>
  The theorem in a locked state with one payload byte, at a second CRC byte that matches
  and at one that does not.
\<close>

theorem second_crc_byte_decides_witness:
  "packetSync ((initial False)\<lparr>packetSync := True, buffer := [0x41] @ replicate 254 0, len := 1,
        offset := 2, computedCrc := 0xEDCB, readCrc := 0x1200\<rparr>)
   \<and> skipBit ((initial False)\<lparr>packetSync := True, buffer := [0x41] @ replicate 254 0, len := 1,
        offset := 2, computedCrc := 0xEDCB, readCrc := 0x1200\<rparr>) = 8
   \<and> processByte ((initial False)\<lparr>packetSync := True, buffer := [0x41] @ replicate 254 0, len := 1,
        offset := 2, computedCrc := 0xEDCB, readCrc := 0x1200\<rparr>) 0x34 =
       Inr (False, (initial False)\<lparr>packetSync := True, buffer := [0x41] @ replicate 254 0, len := 1,
        offset := 2, computedCrc := 0xEDCB, readCrc := 0xEDCB, stdout := [Packet_msg [0x41]]\<rparr>)
   \<and> emitted ((initial False)\<lparr>packetSync := True, buffer := [0x41] @ replicate 254 0, len := 1,
        offset := 2, computedCrc := 0xEDCB, readCrc := 0x1200\<rparr>) (byte_bits 0x34) = Inr [[0x41]]
   \<and> emitted ((initial False)\<lparr>packetSync := True, buffer := [0x41] @ replicate 254 0, len := 1,
        offset := 2, computedCrc := 0xEDCB, readCrc := 0x1200\<rparr>) (byte_bits 0x35) = Inr []
   \<and> locked_after ((initial False)\<lparr>packetSync := True, buffer := [0x41] @ replicate 254 0, len := 1,
        offset := 2, computedCrc := 0xEDCB, readCrc := 0x1200\<rparr>) (byte_bits 0x34) = Inr False"
  using second_crc_byte_decides [of "(initial False)\<lparr>packetSync := True,
        buffer := [0x41] @ replicate 254 0, len := 1,
        offset := 2, computedCrc := 0xEDCB, readCrc := 0x1200\<rparr>" "0x34"]
    second_crc_byte_decides [of "(initial False)\<lparr>packetSync := True,
        buffer := [0x41] @ replicate 254 0, len := 1,
        offset := 2, computedCrc := 0xEDCB, readCrc := 0x1200\<rparr>" "0x35"]
  by (simp add: initial_def buffer_size)

section \<open>The reset at a sync match\<close>

lemma locked_step_packet_state:
  assumes "packetSync s" and "processBit s c = Inr s'"
  shows "packet_state s' =
           (if skipBit s - 1 < 1 then
              (if len s = - 1 then
                 (uint (shift_in (byte s) c), offset s,
                  crc_xmodem_update (computedCrc s) (shift_in (byte s) c), readCrc s)
               else if offset s < len s then
                 (len s, offset s + 1,
                  crc_xmodem_update (computedCrc s) (shift_in (byte s) c), readCrc s)
               else if offset s = len s then
                 (len s, offset s + 1, computedCrc s,
                  readCrc s OR push_bit 8 (ucast (shift_in (byte s) c)))
               else if offset s = len s + 1 then
                 (len s, offset s, computedCrc s,
                  0xFFFF - (readCrc s OR ucast (shift_in (byte s) c)))
               else packet_state s)
            else packet_state s)"
  using assms
  by (auto simp: processBit_locked processByte_def packet_state_def Let_def
      read_hi_word read_lo_word complement_word
      split: if_splits sum.splits prod.splits)

lemma locked_step_countdown:
  assumes "packetSync s" and "processBit s c = Inr s'"
  shows "skipBit s' = (if skipBit s - 1 < 1 then 8 else skipBit s - 1)"
  using assms
  by (auto simp: processBit_locked processByte_def Let_def
      split: if_splits sum.splits prod.splits)

lemma locked_step_unset_length:
  assumes "packetSync s" and "processBit s c = Inr s'" and "len s' = - 1"
  shows "packet_state s' = packet_state s \<and> skipBit s' = skipBit s - 1"
proof -
  have "0 \<le> uint (shift_in (byte s) c)"
    by simp
  then have "uint (shift_in (byte s) c) \<noteq> - 1"
    by linarith
  then have byte_open: "\<not> skipBit s - 1 < 1"
    using assms
    by (auto simp: processBit_locked processByte_def Let_def
        split: if_splits sum.splits prod.splits)
  then have "s' = s\<lparr>byte := shift_in (byte s) c, skipBit := skipBit s - 1\<rparr>"
    using assms(1,2) by (simp add: processBit_locked)
  then show ?thesis
    by (simp add: packet_state_def)
qed

text \<open>
  Claim C5. A searching decoder shifts every bit into the sync register and compares the
  register with the sync word and with its 16-bit complement. On a match it becomes
  locked and, in the same step, sets \<open>len\<close> to unset, \<open>offset\<close> to 0, the computed CRC to
  \<open>0x1D0F\<close>, the received CRC to 0 and the bit countdown to 8; without a match only the
  register changes. A step of a locked decoder is never such a reset. In the middle of a
  byte it leaves the packet in progress (\<open>len\<close>, \<open>offset\<close>, both CRCs) as it was and
  counts down; at the end of a byte it loads the countdown with 8 and does to the packet
  what the branch of the assembler for that byte does, and no more: the length byte sets
  \<open>len\<close> and feeds the computed CRC, a data byte advances \<open>offset\<close> and feeds the computed
  CRC, the first CRC byte advances \<open>offset\<close> and fills the high byte of the received CRC,
  the second completes and complements the received CRC. So \<open>len\<close> is unset after a locked
  step only if the packet in progress is untouched and the countdown went down by one.
\<close>

theorem sync_match_resets_packet_state:
  assumes "\<not> packetSync st" and "packetSync s" and "processBit s c = Inr s'"
  shows "processBit st b =
           Inr (if shift_in (syncBuffer st) b = 0x2DAA \<or> shift_in (syncBuffer st) b = 0xFFFF - 0x2DAA
                then st\<lparr>syncBuffer := shift_in (syncBuffer st) b, packetSync := True,
                       stdout := stdout st @
                         (if verbose st then [Sync_msg (shift_in (syncBuffer st) b)] else []),
                       skipBit := 8, len := - 1, offset := 0, computedCrc := 0x1D0F,
                       readCrc := 0\<rparr>
                else st\<lparr>syncBuffer := shift_in (syncBuffer st) b\<rparr>)
       \<and> packet_state s' =
           (if skipBit s - 1 < 1 then
              (if len s = - 1 then
                 (uint (shift_in (byte s) c), offset s,
                  crc_xmodem_update (computedCrc s) (shift_in (byte s) c), readCrc s)
               else if offset s < len s then
                 (len s, offset s + 1,
                  crc_xmodem_update (computedCrc s) (shift_in (byte s) c), readCrc s)
               else if offset s = len s then
                 (len s, offset s + 1, computedCrc s,
                  readCrc s OR push_bit 8 (ucast (shift_in (byte s) c)))
               else if offset s = len s + 1 then
                 (len s, offset s, computedCrc s,
                  0xFFFF - (readCrc s OR ucast (shift_in (byte s) c)))
               else packet_state s)
            else packet_state s)
       \<and> skipBit s' = (if skipBit s - 1 < 1 then 8 else skipBit s - 1)
       \<and> (len s' = - 1 \<longrightarrow>
            packet_state s' = packet_state s \<and> skipBit s' = skipBit s - 1)"
proof -
  have searching: "processBit st b =
           Inr (if shift_in (syncBuffer st) b = 0x2DAA \<or> shift_in (syncBuffer st) b = 0xFFFF - 0x2DAA
                then st\<lparr>syncBuffer := shift_in (syncBuffer st) b, packetSync := True,
                       stdout := stdout st @
                         (if verbose st then [Sync_msg (shift_in (syncBuffer st) b)] else []),
                       skipBit := 8, len := - 1, offset := 0, computedCrc := 0x1D0F,
                       readCrc := 0\<rparr>
                else st\<lparr>syncBuffer := shift_in (syncBuffer st) b\<rparr>)"
    using assms(1) by (simp add: processBit_searching is_sync_def)
  note packet = locked_step_packet_state [OF assms(2,3)]
  note countdown = locked_step_countdown [OF assms(2,3)]
  have unset: "len s' = - 1 \<longrightarrow> packet_state s' = packet_state s \<and> skipBit s' = skipBit s - 1"
    using locked_step_unset_length [OF assms(2,3)] by blast
  from searching packet countdown unset show ?thesis
    by (intro conjI)
qed

text \<open>
  The theorem at the searching state that a fresh decoder reaches by the frame of \<open>ABC\<close> and
  the first fifteen bits of the sync word, where the packet variables hold what the packet
  left (\<open>len\<close> 3, \<open>offset\<close> 4, both CRCs \<open>0xAC58\<close>): the bit that completes the sync word
  resets them, the other bit leaves them. And at two locked states that a fresh decoder
  reaches by the sync word: after one more bit, in the middle of the length byte, and after
  the length 2 and seven bits, where the step completes the data byte \<open>0x41\<close>.
\<close>

theorem sync_match_resets_packet_state_witness:
  "processBits (initial False) (encode_packet [0x41, 0x42, 0x43] @ sync15) =
       Inr ((initial False)\<lparr>syncBuffer := 0x16D5, byte := 0xA7,
              buffer := [0x41, 0x42, 0x43] @ replicate 252 0, len := 3, offset := 4,
              computedCrc := 0xAC58, readCrc := 0xAC58,
              stdout := [Packet_msg [0x41, 0x42, 0x43]]\<rparr>)
   \<and> \<not> packetSync ((initial False)\<lparr>syncBuffer := 0x16D5, byte := 0xA7,
              buffer := [0x41, 0x42, 0x43] @ replicate 252 0, len := 3, offset := 4,
              computedCrc := 0xAC58, readCrc := 0xAC58,
              stdout := [Packet_msg [0x41, 0x42, 0x43]]\<rparr>)
   \<and> processBit ((initial False)\<lparr>syncBuffer := 0x16D5, byte := 0xA7,
              buffer := [0x41, 0x42, 0x43] @ replicate 252 0, len := 3, offset := 4,
              computedCrc := 0xAC58, readCrc := 0xAC58,
              stdout := [Packet_msg [0x41, 0x42, 0x43]]\<rparr>) False =
       Inr ((initial False)\<lparr>syncBuffer := 0x2DAA, byte := 0xA7,
              buffer := [0x41, 0x42, 0x43] @ replicate 252 0, packetSync := True,
              len := - 1, offset := 0, computedCrc := 0x1D0F, readCrc := 0,
              stdout := [Packet_msg [0x41, 0x42, 0x43]]\<rparr>)
   \<and> processBit ((initial False)\<lparr>syncBuffer := 0x16D5, byte := 0xA7,
              buffer := [0x41, 0x42, 0x43] @ replicate 252 0, len := 3, offset := 4,
              computedCrc := 0xAC58, readCrc := 0xAC58,
              stdout := [Packet_msg [0x41, 0x42, 0x43]]\<rparr>) True =
       Inr ((initial False)\<lparr>syncBuffer := 0x2DAB, byte := 0xA7,
              buffer := [0x41, 0x42, 0x43] @ replicate 252 0, len := 3, offset := 4,
              computedCrc := 0xAC58, readCrc := 0xAC58,
              stdout := [Packet_msg [0x41, 0x42, 0x43]]\<rparr>)
   \<and> processBits (initial False) (word_bits 0x2DAA) =
       Inr ((initial False)\<lparr>syncBuffer := 0x2DAA, packetSync := True\<rparr>)
   \<and> processBit ((initial False)\<lparr>syncBuffer := 0x2DAA, packetSync := True\<rparr>) True =
       Inr ((initial False)\<lparr>syncBuffer := 0x2DAA, packetSync := True, byte := 1, skipBit := 7\<rparr>)
   \<and> len ((initial False)\<lparr>syncBuffer := 0x2DAA, packetSync := True, byte := 1, skipBit := 7\<rparr>) = - 1
   \<and> packet_state ((initial False)\<lparr>syncBuffer := 0x2DAA, packetSync := True, byte := 1,
         skipBit := 7\<rparr>) = (- 1, 0, 0x1D0F, 0)
   \<and> skipBit ((initial False)\<lparr>syncBuffer := 0x2DAA, packetSync := True, byte := 1,
         skipBit := 7\<rparr>) = 7
   \<and> processBits (initial False)
         (word_bits 0x2DAA @ byte_bits 2 @ [False, True, False, False, False, False, False]) =
       Inr ((initial False)\<lparr>syncBuffer := 0x2DAA, packetSync := True, byte := 0x20, len := 2,
              computedCrc := 0xECDE, skipBit := 1\<rparr>)
   \<and> processBit ((initial False)\<lparr>syncBuffer := 0x2DAA, packetSync := True, byte := 0x20,
         len := 2, computedCrc := 0xECDE, skipBit := 1\<rparr>) True =
       Inr ((initial False)\<lparr>syncBuffer := 0x2DAA, packetSync := True, byte := 0x41,
              buffer := 0x41 # replicate 254 0, len := 2, offset := 1,
              computedCrc := 0xBA47\<rparr>)
   \<and> packet_state ((initial False)\<lparr>syncBuffer := 0x2DAA, packetSync := True, byte := 0x41,
              buffer := 0x41 # replicate 254 0, len := 2, offset := 1,
              computedCrc := 0xBA47\<rparr>) = (2, 1, 0xBA47, 0)
   \<and> skipBit ((initial False)\<lparr>syncBuffer := 0x2DAA, packetSync := True, byte := 0x41,
              buffer := 0x41 # replicate 254 0, len := 2, offset := 1,
              computedCrc := 0xBA47\<rparr>) = 8"
proof -
  let ?W = "(initial False)\<lparr>syncBuffer := 0x16D5, byte := 0xA7,
              buffer := [0x41, 0x42, 0x43] @ replicate 252 0, len := 3, offset := 4,
              computedCrc := 0xAC58, readCrc := 0xAC58,
              stdout := [Packet_msg [0x41, 0x42, 0x43]]\<rparr>"
  let ?L = "(initial False)\<lparr>syncBuffer := 0x2DAA, packetSync := True\<rparr>"
  let ?L' = "(initial False)\<lparr>syncBuffer := 0x2DAA, packetSync := True, byte := 1, skipBit := 7\<rparr>"
  let ?D = "(initial False)\<lparr>syncBuffer := 0x2DAA, packetSync := True, byte := 0x20, len := 2,
              computedCrc := 0xECDE, skipBit := 1\<rparr>"
  let ?D' = "(initial False)\<lparr>syncBuffer := 0x2DAA, packetSync := True, byte := 0x41,
              buffer := 0x41 # replicate 254 0, len := 2, offset := 1,
              computedCrc := 0xBA47\<rparr>"
  have runW: "processBits (initial False) (encode_packet [0x41, 0x42, 0x43] @ sync15) = Inr ?W"
    by code_simp
  have runL: "processBits (initial False) (word_bits 0x2DAA) = Inr ?L"
    by code_simp
  have runD: "processBits (initial False)
         (word_bits 0x2DAA @ byte_bits 2 @ [False, True, False, False, False, False, False]) =
       Inr ?D"
    by code_simp
  have search: "\<not> packetSync ?W" by (simp add: initial_def)
  have locked: "packetSync ?L" "packetSync ?D" by simp_all
  have stepL: "processBit ?L True = Inr ?L'" by code_simp
  have stepD: "processBit ?D True = Inr ?D'" by code_simp
  note match = sync_match_resets_packet_state [OF search locked(1) stepL, of False]
  note no_match = sync_match_resets_packet_state [OF search locked(1) stepL, of True]
  note data = sync_match_resets_packet_state [OF search locked(2) stepD, of False]
  have m: "processBit ?W False =
       Inr ((initial False)\<lparr>syncBuffer := 0x2DAA, byte := 0xA7,
              buffer := [0x41, 0x42, 0x43] @ replicate 252 0, packetSync := True,
              len := - 1, offset := 0, computedCrc := 0x1D0F, readCrc := 0,
              stdout := [Packet_msg [0x41, 0x42, 0x43]]\<rparr>)"
    using match [THEN conjunct1] by (simp add: initial_def shift_in_def)
  have nm: "processBit ?W True =
       Inr ((initial False)\<lparr>syncBuffer := 0x2DAB, byte := 0xA7,
              buffer := [0x41, 0x42, 0x43] @ replicate 252 0, len := 3, offset := 4,
              computedCrc := 0xAC58, readCrc := 0xAC58,
              stdout := [Packet_msg [0x41, 0x42, 0x43]]\<rparr>)"
    using no_match [THEN conjunct1] by (simp add: initial_def shift_in_def)
  have l1: "len ?L' = - 1" by (simp add: initial_def)
  have l2: "packet_state ?L' = (- 1, 0, 0x1D0F, 0)"
    using match l1 by (simp add: packet_state_def initial_def)
  have l3: "skipBit ?L' = 7"
    using match l1 by (simp add: initial_def)
  have d1: "packet_state ?D' = (2, 1, 0xBA47, 0)"
    by (simp add: packet_state_def initial_def)
  have d2: "skipBit ?D' = 8"
    using data by (simp add: initial_def)
  from runW search m nm runL stepL l1 l2 l3 runD stepD d1 d2 show ?thesis
    by (intro conjI)
qed

section \<open>The sync register while locked and after\<close>

lemma processByte_syncBuffer:
  "processByte (st\<lparr>syncBuffer := r\<rparr>) b =
     (case processByte st b of
        Inl e \<Rightarrow> Inl e
      | Inr (flag, st') \<Rightarrow> Inr (flag, st'\<lparr>syncBuffer := r\<rparr>))"
  by (simp add: processByte_def Let_def split: sum.splits)

lemma processByte_keeps_syncBuffer:
  "processByte st b = Inr (flag, st') \<Longrightarrow> syncBuffer st' = syncBuffer st"
  by (auto simp: processByte_def Let_def split: if_splits sum.splits)

lemma processBit_locked_register:
  assumes "packetSync st \<longrightarrow> is_sync (syncBuffer st)" and "processBit st b = Inr st'"
  shows "packetSync st' \<longrightarrow> is_sync (syncBuffer st')"
proof (cases "packetSync st")
  case True
  then have "syncBuffer st' = syncBuffer st"
    using assms(2)
    by (auto simp: processBit_locked split: if_splits sum.splits dest: processByte_keeps_syncBuffer)
  with True assms(1) show ?thesis by simp
next
  case False
  then show ?thesis
    using assms(2) by (auto simp: processBit_searching split: if_splits)
qed

lemma processBits_locked_register:
  assumes "packetSync st \<longrightarrow> is_sync (syncBuffer st)" and "processBits st bs = Inr st'"
  shows "packetSync st' \<longrightarrow> is_sync (syncBuffer st')"
  using assms
proof (induction bs arbitrary: st)
  case Nil
  then show ?case by simp
next
  case (Cons b bs)
  from Cons.prems(2) obtain st1 where step: "processBit st b = Inr st1"
    and rest: "processBits st1 bs = Inr st'"
    by (auto split: sum.splits)
  from processBit_locked_register [OF Cons.prems(1) step] rest show ?case
    by (rule Cons.IH)
qed

text \<open>
  Claim C7, amended. A step of a locked decoder neither compares nor updates the sync
  register: with any other register contents \<open>r\<close> the step does the same and leaves \<open>r\<close>,
  so sync-word bits inside a packet cannot force a new lock. When a step returns the
  decoder to searching, the register is not cleared: it still holds what it held at the
  lock, which in every run of the program is the sync word or its complement, and the next
  bit is shifted into that value.
\<close>

theorem locked_keeps_sync_register:
  assumes "packetSync st" and "processBit st b = Inr st'"
  shows "processBit (st\<lparr>syncBuffer := r\<rparr>) b = Inr (st'\<lparr>syncBuffer := r\<rparr>)
       \<and> syncBuffer st' = syncBuffer st
       \<and> (\<not> packetSync st' \<and> processBit st' c = Inr st'' \<longrightarrow>
            syncBuffer st'' = shift_in (syncBuffer st) c)
       \<and> (processBits (initial v) bs = Inr st \<longrightarrow> is_sync (syncBuffer st))"
proof -
  have keep: "syncBuffer st' = syncBuffer st"
    using assms(1,2)
    by (auto simp: processBit_locked split: if_splits sum.splits dest: processByte_keeps_syncBuffer)
  have comm: "st\<lparr>syncBuffer := r, byte := x, skipBit := 8\<rparr> =
      st\<lparr>byte := x, skipBit := 8\<rparr>\<lparr>syncBuffer := r\<rparr>" for x
    by simp
  have indep: "processBit (st\<lparr>syncBuffer := r\<rparr>) b = Inr (st'\<lparr>syncBuffer := r\<rparr>)"
    using assms(1,2)
    by (auto simp: processBit_locked comm processByte_syncBuffer split: if_splits sum.splits)
  have next_bit: "syncBuffer st'' = shift_in (syncBuffer st) c"
    if "\<not> packetSync st'" and "processBit st' c = Inr st''"
  proof -
    have "syncBuffer st'' = shift_in (syncBuffer st') c"
      using that by (auto simp: processBit_searching split: if_splits)
    with keep show ?thesis by simp
  qed
  have reach: "is_sync (syncBuffer st)" if "processBits (initial v) bs = Inr st"
  proof -
    have "packetSync (initial v) \<longrightarrow> is_sync (syncBuffer (initial v))"
      by (simp add: initial_def)
    from processBits_locked_register [OF this that] assms(1) show ?thesis by simp
  qed
  from keep indep next_bit reach show ?thesis by blast
qed

text \<open>
  Claim C7 as stated, that the register starts fresh when the decoder searches again, fails.
  After a lock and the rejected length \<open>0xFF\<close> the register holds \<open>0x2DAA\<close> or \<open>0xD255\<close>,
  whichever matched. The last fifteen bits of the sync word then lock the decoder that
  kept \<open>0x2DAA\<close> and not the one that kept \<open>0xD255\<close>, and the last fourteen bits, which
  would lock a decoder with a cleared register, do not lock the one that kept \<open>0x2DAA\<close>.
\<close>

theorem leftover_register_counterexample:
  "processBits (initial False) (word_bits 0x2DAA @ byte_bits 0xFF) =
     Inr ((initial False)\<lparr>syncBuffer := 0x2DAA, byte := 0xFF, len := 255,
            computedCrc := crc_xmodem_update 0x1D0F 0xFF\<rparr>)
   \<and> processBits (initial False) (word_bits 0xD255 @ byte_bits 0xFF) =
     Inr ((initial False)\<lparr>syncBuffer := 0xD255, byte := 0xFF, len := 255,
            computedCrc := crc_xmodem_update 0x1D0F 0xFF\<rparr>)
   \<and> locked_after ((initial False)\<lparr>syncBuffer := 0x2DAA, byte := 0xFF, len := 255,
            computedCrc := crc_xmodem_update 0x1D0F 0xFF\<rparr>) (tl (word_bits 0x2DAA)) = Inr True
   \<and> locked_after ((initial False)\<lparr>syncBuffer := 0xD255, byte := 0xFF, len := 255,
            computedCrc := crc_xmodem_update 0x1D0F 0xFF\<rparr>) (tl (word_bits 0x2DAA)) = Inr False
   \<and> locked_after ((initial False)\<lparr>syncBuffer := 0, byte := 0xFF, len := 255,
            computedCrc := crc_xmodem_update 0x1D0F 0xFF\<rparr>) (tl (tl (word_bits 0x2DAA))) = Inr True
   \<and> locked_after ((initial False)\<lparr>syncBuffer := 0x2DAA, byte := 0xFF, len := 255,
            computedCrc := crc_xmodem_update 0x1D0F 0xFF\<rparr>) (tl (tl (word_bits 0x2DAA))) = Inr False"
  by code_simp

text \<open>
  The theorem at the last bit of a rejected length byte \<open>0xFF\<close>, in the state that a
  fresh decoder reaches by the complemented sync word and seven bits.
\<close>

theorem locked_keeps_sync_register_witness:
  "processBits (initial False) (word_bits 0xD255 @ replicate 7 True) =
       Inr ((initial False)\<lparr>syncBuffer := 0xD255, packetSync := True, byte := 0x7F, skipBit := 1\<rparr>)
   \<and> packetSync ((initial False)\<lparr>syncBuffer := 0xD255, packetSync := True, byte := 0x7F, skipBit := 1\<rparr>)
   \<and> processBit ((initial False)\<lparr>syncBuffer := 0xD255, packetSync := True, byte := 0x7F, skipBit := 1\<rparr>) True =
       Inr ((initial False)\<lparr>syncBuffer := 0xD255, byte := 0xFF, len := 255,
              computedCrc := crc_xmodem_update 0x1D0F 0xFF\<rparr>)
   \<and> \<not> packetSync ((initial False)\<lparr>syncBuffer := 0xD255, byte := 0xFF, len := 255,
              computedCrc := crc_xmodem_update 0x1D0F 0xFF\<rparr>)
   \<and> processBit ((initial False)\<lparr>syncBuffer := 0xD255, byte := 0xFF, len := 255,
              computedCrc := crc_xmodem_update 0x1D0F 0xFF\<rparr>) True =
       Inr ((initial False)\<lparr>syncBuffer := 0xA4AB, byte := 0xFF, len := 255,
              computedCrc := crc_xmodem_update 0x1D0F 0xFF\<rparr>)
   \<and> processBit ((initial False)\<lparr>syncBuffer := 0x1234, packetSync := True, byte := 0x7F, skipBit := 1\<rparr>) True =
       Inr ((initial False)\<lparr>syncBuffer := 0x1234, byte := 0xFF, len := 255,
              computedCrc := crc_xmodem_update 0x1D0F 0xFF\<rparr>)
   \<and> shift_in (0xD255 :: u16) True = 0xA4AB
   \<and> is_sync (syncBuffer ((initial False)\<lparr>syncBuffer := 0xD255, packetSync := True,
         byte := 0x7F, skipBit := 1\<rparr>))"
proof -
  let ?st = "(initial False)\<lparr>syncBuffer := 0xD255, packetSync := True, byte := 0x7F, skipBit := 1\<rparr>"
  let ?st' = "(initial False)\<lparr>syncBuffer := 0xD255, byte := 0xFF, len := 255,
              computedCrc := crc_xmodem_update 0x1D0F 0xFF\<rparr>"
  let ?st'' = "(initial False)\<lparr>syncBuffer := 0xA4AB, byte := 0xFF, len := 255,
              computedCrc := crc_xmodem_update 0x1D0F 0xFF\<rparr>"
  have run: "processBits (initial False) (word_bits 0xD255 @ replicate 7 True) = Inr ?st"
    by code_simp
  have a: "packetSync ?st" by simp
  have b: "processBit ?st True = Inr ?st'"
    by (simp add: processBit_locked processByte_length initial_def shift_in_def)
  have c: "\<not> packetSync ?st'" by (simp add: initial_def)
  have sh: "shift_in (0xD255 :: u16) True = 0xA4AB" by (simp add: shift_in_def)
  have d: "processBit ?st' True = Inr ?st''"
    by (simp add: processBit_searching initial_def sh is_sync_def)
  note inst = locked_keeps_sync_register [OF a b,
      where r = "0x1234" and c = True and st'' = ?st'' and v = False
        and bs = "word_bits 0xD255 @ replicate 7 True"]
  have e: "processBit (?st\<lparr>syncBuffer := 0x1234\<rparr>) True = Inr (?st'\<lparr>syncBuffer := 0x1234\<rparr>)"
    using inst by (rule conjunct1)
  have f: "is_sync (syncBuffer ?st)"
    using inst run by blast
  from run a b c d e sh f show ?thesis by (simp add: initial_def)
qed

section \<open>Independence of the verbose flag\<close>

lemma control_state_eq:
  "control_state a = control_state b \<longleftrightarrow>
     syncBuffer a = syncBuffer b \<and> byte a = byte b \<and> buffer a = buffer b \<and>
     packetSync a = packetSync b \<and> len a = len b \<and> offset a = offset b \<and>
     computedCrc a = computedCrc b \<and> readCrc a = readCrc b \<and> skipBit a = skipBit b"
  by (auto simp: control_state_def)

lemma processByte_same_run:
  assumes "same_run a b"
  shows "(\<exists>e. processByte a x = Inl e \<and> processByte b x = Inl e) \<or>
         (\<exists>f a' b'. processByte a x = Inr (f, a') \<and> processByte b x = Inr (f, b') \<and> same_run a' b')"
  using assms
  by (auto simp: same_run_def control_state_eq processByte_def Let_def packets_append
      split: sum.splits)

lemma processBit_same_run:
  assumes "same_run a b"
  shows "same_outcome (processBit a x) (processBit b x)"
proof (cases "packetSync a")
  case True
  with assms have lb: "packetSync b" by (simp add: same_run_def control_state_eq)
  have eq: "byte a = byte b" "skipBit a = skipBit b"
    using assms by (simp_all add: same_run_def control_state_eq)
  have sr: "same_run (a\<lparr>byte := c, skipBit := k\<rparr>) (b\<lparr>byte := c, skipBit := k\<rparr>)" for c k
    using assms by (simp add: same_run_def control_state_eq)
  show ?thesis
    using processByte_same_run [OF sr [where c = "shift_in (byte b) x" and k = 8],
        of "shift_in (byte b) x"]
      sr [where c = "shift_in (byte b) x" and k = "skipBit b - 1"]
    by (auto simp: processBit_locked True lb eq same_run_def control_state_eq same_outcome_def
        split: sum.splits)
next
  case False
  with assms have lb: "\<not> packetSync b" by (simp add: same_run_def control_state_eq)
  show ?thesis
    using assms
    by (auto simp: processBit_searching False lb same_run_def control_state_eq packets_append
        same_outcome_def)
qed

lemma processBits_same_run:
  assumes "same_run a b"
  shows "same_outcome (processBits a xs) (processBits b xs)"
  using assms
proof (induction xs arbitrary: a b)
  case Nil
  then show ?case by (simp add: same_outcome_def)
next
  case (Cons x xs)
  from processBit_same_run [OF Cons.prems, of x]
  consider (err) e where "processBit a x = Inl e" and "processBit b x = Inl e"
    | (ok) a' b' where "processBit a x = Inr a'" and "processBit b x = Inr b'" and "same_run a' b'"
    by (auto simp: same_outcome_def split: sum.splits)
  then show ?case
  proof cases
    case err
    then show ?thesis by (simp add: same_outcome_def)
  next
    case ok
    with Cons.IH [OF ok(3)] show ?thesis by simp
  qed
qed

lemma same_run_initial: "same_run (initial v) (initial v')"
  by (simp add: same_run_def control_state_def initial_def)

text \<open>
  Claim C9. The decoder is a function of its start state and of the bit stream, and start
  states differ in the verbose flag only. For every bit stream, whatever the flag of either
  run, two runs print the same packets in the same order, and after every prefix of the
  stream they are in the same state (all variables but the flag and the output), or have
  stopped with the same error.
\<close>

theorem verbose_and_rerun_do_not_change_decoding:
  "emitted (initial v) bs = emitted (initial v') bs
   \<and> map_sum id control_state (processBits (initial v) (take n bs)) =
     map_sum id control_state (processBits (initial v') (take n bs))"
proof -
  have "same_outcome (processBits (initial v) xs) (processBits (initial v') xs)" for xs
    using same_run_initial by (rule processBits_same_run)
  from this [of bs] this [of "take n bs"] show ?thesis
    by (auto simp: same_outcome_def same_run_def emitted_def printed_def initial_def
        split: sum.splits)
qed

section \<open>Bounds of the payload buffer\<close>

lemma processByte_bounds:
  assumes "length (buffer st) = 255"
    and "(len st = - 1 \<and> offset st = 0) \<or>
         (0 \<le> len st \<and> len st \<le> 254 \<and> 0 \<le> offset st \<and> offset st \<le> len st + 1)"
  shows "\<exists>f st'. processByte st b = Inr (f, st') \<and> length (buffer st') = 255 \<and>
           packetSync st' = packetSync st \<and>
           (f \<longrightarrow> 0 \<le> len st' \<and> len st' \<le> 254 \<and> 0 \<le> offset st' \<and> offset st' \<le> len st' + 1)"
proof -
  consider (length) "len st = - 1" "offset st = 0"
    | (data) "0 \<le> len st" "len st \<le> 254" "0 \<le> offset st" "offset st < len st"
    | (hi) "0 \<le> len st" "len st \<le> 254" "offset st = len st"
    | (lo) "0 \<le> len st" "len st \<le> 254" "offset st = len st + 1"
    using assms(2) by linarith
  then show ?thesis
  proof cases
    case length
    then show ?thesis using assms(1) by (auto simp: processByte_length)
  next
    case data
    then show ?thesis using assms(1) by (auto simp: processByte_data)
  next
    case hi
    then show ?thesis using assms(1) by (auto simp: processByte_crc_hi)
  next
    case lo
    then show ?thesis using assms(1) by (auto simp: processByte_crc_lo)
  qed
qed

lemma processBit_inv:
  assumes "assembler_inv st"
  shows "\<exists>st'. processBit st b = Inr st' \<and> assembler_inv st'"
proof (cases "packetSync st")
  case True
  show ?thesis
  proof (cases "skipBit st - 1 < 1")
    case byte_done: True
    let ?s = "st\<lparr>byte := shift_in (byte st) b, skipBit := 8\<rparr>"
    have "length (buffer ?s) = 255"
      using assms by (simp add: assembler_inv_def buffer_size)
    moreover have "(len ?s = - 1 \<and> offset ?s = 0) \<or>
         (0 \<le> len ?s \<and> len ?s \<le> 254 \<and> 0 \<le> offset ?s \<and> offset ?s \<le> len ?s + 1)"
      using assms True by (simp add: assembler_inv_def)
    ultimately obtain f st' where "processByte ?s (shift_in (byte st) b) = Inr (f, st')"
      and "length (buffer st') = 255"
      and "f \<longrightarrow> 0 \<le> len st' \<and> len st' \<le> 254 \<and> 0 \<le> offset st' \<and> offset st' \<le> len st' + 1"
      using processByte_bounds [of ?s "shift_in (byte st) b"] by blast
    then show ?thesis
      using True byte_done by (simp add: processBit_locked assembler_inv_def buffer_size)
  next
    case False
    then show ?thesis
      using True assms by (simp add: processBit_locked assembler_inv_def)
  qed
next
  case False
  then show ?thesis
    using assms by (simp add: processBit_searching assembler_inv_def)
qed

lemma processBits_inv:
  assumes "assembler_inv st"
  shows "\<exists>st'. processBits st bs = Inr st' \<and> assembler_inv st'"
  using assms
proof (induction bs arbitrary: st)
  case Nil
  then show ?case by simp
next
  case (Cons b bs)
  from processBit_inv [OF Cons.prems, of b] obtain st1
    where "processBit st b = Inr st1" and "assembler_inv st1" by blast
  with Cons.IH [of st1] show ?case by simp
qed

lemma initial_inv: "assembler_inv (initial v)"
  by (simp add: assembler_inv_def initial_def)

text \<open>
  Claim C10. From a state in which the bounds of the assembler hold (every searching state
  with a buffer of 255 bytes, hence the start state and every state at a sync match), no
  run ends in \<open>Buffer_overrun\<close>, and the bounds hold in the state it reaches. There, if
  the next byte goes to the data branch, then \<open>0 \<le> offset < len \<le> 254\<close> and the index
  written is inside the buffer; and the last branch of \<open>processByte\<close>, for an offset
  beyond \<open>len + 1\<close>, cannot be taken. \<open>processByte\<close> changes the buffer in the data branch
  only, at index \<open>offset\<close>.
\<close>

theorem buffer_writes_in_bounds:
  assumes "assembler_inv st"
  shows "(\<exists>st'. processBits st bs = Inr st' \<and> assembler_inv st' \<and>
            (packetSync st' \<and> len st' \<noteq> - 1 \<and> offset st' < len st' \<longrightarrow>
               0 \<le> offset st' \<and> offset st' < len st' \<and> len st' \<le> 254 \<and>
               nat (offset st') < length (buffer st') \<and> length (buffer st') = 255) \<and>
            (packetSync st' \<longrightarrow> len st' = - 1 \<or> offset st' \<le> len st' + 1))
       \<and> (processByte s b = Inr (f, s') \<longrightarrow>
            buffer s' = buffer s \<or>
            (len s \<noteq> - 1 \<and> offset s < len s \<and> buffer s' = (buffer s)[nat (offset s) := b]))"
proof -
  from processBits_inv [OF assms, of bs] obtain st'
    where run: "processBits st bs = Inr st'" and inv: "assembler_inv st'" by blast
  have "packetSync st' \<and> len st' \<noteq> - 1 \<and> offset st' < len st' \<longrightarrow>
               0 \<le> offset st' \<and> offset st' < len st' \<and> len st' \<le> 254 \<and>
               nat (offset st') < length (buffer st') \<and> length (buffer st') = 255"
    using inv by (auto simp: assembler_inv_def buffer_size)
  moreover have "packetSync st' \<longrightarrow> len st' = - 1 \<or> offset st' \<le> len st' + 1"
    using inv by (auto simp: assembler_inv_def)
  moreover have "processByte s b = Inr (f, s') \<longrightarrow>
            buffer s' = buffer s \<or>
            (len s \<noteq> - 1 \<and> offset s < len s \<and> buffer s' = (buffer s)[nat (offset s) := b])"
    by (auto simp: processByte_def Let_def split: if_splits sum.splits)
  ultimately show ?thesis using run inv by blast
qed

text \<open>
  The theorem on a fresh decoder after the sync word, the length 2 and one payload byte,
  where the next byte is written at index 1.
\<close>

theorem buffer_writes_in_bounds_witness:
  "assembler_inv (initial False)
   \<and> processBits (initial False) (word_bits 0x2DAA @ byte_bits 2 @ byte_bits 0x41) =
       Inr ((initial False)\<lparr>syncBuffer := 0x2DAA, byte := 0x41, buffer := 0x41 # replicate 254 0,
              packetSync := True, len := 2, offset := 1,
              computedCrc := crc_xmodem_update (crc_xmodem_update 0x1D0F 2) 0x41\<rparr>)
   \<and> processByte ((initial False)\<lparr>syncBuffer := 0x2DAA, byte := 0x41, buffer := 0x41 # replicate 254 0,
              packetSync := True, len := 2, offset := 1,
              computedCrc := crc_xmodem_update (crc_xmodem_update 0x1D0F 2) 0x41\<rparr>) 0x42 =
       Inr (True, (initial False)\<lparr>syncBuffer := 0x2DAA, byte := 0x41,
              buffer := 0x41 # 0x42 # replicate 253 0,
              packetSync := True, len := 2, offset := 2,
              computedCrc := crc_xmodem_update (crc_xmodem_update (crc_xmodem_update 0x1D0F 2) 0x41) 0x42\<rparr>)
   \<and> (0x41 # 0x42 # replicate 253 0 :: u8 list) = (0x41 # replicate 254 0)[nat 1 := 0x42]"
proof -
  let ?bs = "word_bits 0x2DAA @ byte_bits 2 @ byte_bits 0x41"
  let ?st = "(initial False)\<lparr>syncBuffer := 0x2DAA, byte := 0x41, buffer := 0x41 # replicate 254 0,
              packetSync := True, len := 2, offset := 1,
              computedCrc := crc_xmodem_update (crc_xmodem_update 0x1D0F 2) 0x41\<rparr>"
  let ?st' = "(initial False)\<lparr>syncBuffer := 0x2DAA, byte := 0x41,
              buffer := 0x41 # 0x42 # replicate 253 0,
              packetSync := True, len := 2, offset := 2,
              computedCrc := crc_xmodem_update (crc_xmodem_update (crc_xmodem_update 0x1D0F 2) 0x41) 0x42\<rparr>"
  have inv: "assembler_inv (initial False)" by (rule initial_inv)
  have run: "processBits (initial False) ?bs = Inr ?st" by code_simp
  have step: "processByte ?st 0x42 = Inr (True, ?st')" by code_simp
  have upd: "(0x41 # 0x42 # replicate 253 0 :: u8 list) = (0x41 # replicate 254 0)[nat 1 := 0x42]"
    by code_simp
  from buffer_writes_in_bounds [OF inv, of ?bs ?st "0x42" True ?st'] inv run step upd
  show ?thesis by blast
qed

section \<open>The bit slicer\<close>












end
